theory Spec2Isabelle
  imports Complex_Main "HOL-Library.Word"
begin

section \<open>Data model of the JPEG XL handler (jxl.cpp)\<close>

text \<open>
  The handler of jxl.cpp is a C++ object whose members are mutated by its methods.
  It is modelled by a record that every method takes and returns. The JPEG XL
  library (libjxl) and Qt are external: what they answer is an argument of the
  method that asks, so that every branch of the source on such an answer is a branch
  of the model.
\<close>

type_synonym byte = "8 word"

text \<open>The parse states of jxl\_p.h, as jxl.cpp uses them.\<close>

datatype ParseJpegXLState =
    ParseJpegXLError
  | ParseJpegXLNotParsed
  | ParseJpegXLSuccess
  | ParseJpegXLBasicInfoParsed
  | ParseJpegXLFinished

text \<open>libjxl: the status codes of the decoder, the signature kinds, the orientations.\<close>

datatype JxlDecoderStatus =
    JXL_DEC_SUCCESS
  | JXL_DEC_ERROR
  | JXL_DEC_NEED_MORE_INPUT
  | JXL_DEC_NEED_PREVIEW_OUT_BUFFER
  | JXL_DEC_NEED_IMAGE_OUT_BUFFER
  | JXL_DEC_JPEG_NEED_MORE_OUTPUT
  | JXL_DEC_BOX_NEED_MORE_OUTPUT
  | JXL_DEC_BASIC_INFO
  | JXL_DEC_COLOR_ENCODING
  | JXL_DEC_PREVIEW_IMAGE
  | JXL_DEC_FRAME
  | JXL_DEC_FULL_IMAGE
  | JXL_DEC_JPEG_RECONSTRUCTION
  | JXL_DEC_BOX
  | JXL_DEC_FRAME_PROGRESSION
  | JXL_DEC_BOX_COMPLETE

datatype JxlSignature =
    JXL_SIG_NOT_ENOUGH_BYTES
  | JXL_SIG_INVALID
  | JXL_SIG_CODESTREAM
  | JXL_SIG_CONTAINER

datatype JxlOrientation =
    JXL_ORIENT_IDENTITY
  | JXL_ORIENT_FLIP_HORIZONTAL
  | JXL_ORIENT_ROTATE_180
  | JXL_ORIENT_FLIP_VERTICAL
  | JXL_ORIENT_TRANSPOSE
  | JXL_ORIENT_ROTATE_90_CW
  | JXL_ORIENT_ANTI_TRANSPOSE
  | JXL_ORIENT_ROTATE_90_CCW

text \<open>
  Qt: the options of QImageIOHandler that jxl.cpp names (every other option is
  \<open>OtherOption\<close>), and the flag values of QImageIOHandler::Transformation.
\<close>

datatype ImageOption = Size | Quality | Animation | ImageTransformation | OtherOption

definition TransformationNone :: int where "TransformationNone = 0"
definition TransformationMirror :: int where "TransformationMirror = 1"
definition TransformationFlip :: int where "TransformationFlip = 2"
definition TransformationRotate180 :: int where "TransformationRotate180 = 3"
definition TransformationRotate90 :: int where "TransformationRotate90 = 4"
definition TransformationMirrorAndRotate90 :: int where "TransformationMirrorAndRotate90 = 5"
definition TransformationFlipAndRotate90 :: int where "TransformationFlipAndRotate90 = 6"
definition TransformationRotate270 :: int where "TransformationRotate270 = 7"

lemmas Transformation_defs =
  TransformationNone_def TransformationMirror_def TransformationFlip_def
  TransformationRotate180_def TransformationRotate90_def
  TransformationMirrorAndRotate90_def TransformationFlipAndRotate90_def
  TransformationRotate270_def

text \<open>JxlBasicInfo: the fields jxl.cpp reads. The uint32 fields are naturals.\<close>

record JxlAnimationHeader =
  tps_numerator :: nat
  tps_denominator :: nat
  num_loops :: nat

record JxlBasicInfo =
  have_container :: bool
  xsize :: nat
  ysize :: nat
  bits_per_sample :: nat
  exponent_bits_per_sample :: nat
  uses_original_profile :: bool
  have_animation :: bool
  orientation :: JxlOrientation
  num_color_channels :: nat
  num_extra_channels :: nat
  alpha_bits :: nat
  animation :: JxlAnimationHeader

text \<open>
  A QIODevice is the bytes it holds and the read position. \<open>peek\<close> returns up to
  \<open>n\<close> bytes from the position on and leaves the device as it is; \<open>readAll\<close>
  consumes the rest.
\<close>

record QIODevice =
  dev_bytes :: "byte list"
  dev_pos :: nat

definition peek :: "nat \<Rightarrow> QIODevice \<Rightarrow> byte list \<times> QIODevice" where
  "peek n d = (take n (drop (dev_pos d) (dev_bytes d)), d)"

definition readAll :: "QIODevice \<Rightarrow> byte list \<times> QIODevice" where
  "readAll d =
     (drop (dev_pos d) (dev_bytes d),
      d\<lparr>dev_pos := max (dev_pos d) (length (dev_bytes d))\<rparr>)"

text \<open>
  The members of QJpegXLHandler that the modelled methods read or branch on, and the
  device of the base class. \<open>m_decoder\<close> and \<open>m_runner\<close> say whether the pointer
  is non-null. An image is a value of any type \<open>'img\<close>: the handler only stores and
  hands out what the decoder produced. The pixel format plan, the colour space and
  the Exif and XMP blobs are left out: the decoder and Qt fill them, and no branch
  of the methods below depends on them. \<open>undefined_behaviour\<close> is not a member: it
  records that the C++ ran into undefined behaviour (an index out of range, a
  double-to-int conversion out of range), after which the model says nothing.
\<close>

record 'img QJpegXLHandler =
  device :: QIODevice
  m_parseState :: ParseJpegXLState
  m_quality :: int
  m_currentimage_index :: int
  m_previousimage_index :: int
  m_transformations :: int
  m_decoder :: bool
  m_runner :: bool
  m_next_image_delay :: int
  m_isCMYK :: bool
  m_cmyk_channel_id :: nat
  m_alpha_channel_id :: nat
  m_rawData :: "byte list"
  m_basicinfo :: JxlBasicInfo
  m_framedelays :: "int list"
  m_current_image :: 'img
  undefined_behaviour :: bool

text \<open>The build: the preprocessor conditions of jxl.cpp.\<close>

record build =
  QT_POINTER_SIZE :: nat
  JXL_QT_AUTOTRANSFORM :: bool
  QT_VERSION_6_8 :: bool
  JXL_DECODE_BOXES_DISABLED :: bool
  JPEGXL_VERSION_0_11 :: bool

definition FEATURE_LEVEL_5_WIDTH :: nat where "FEATURE_LEVEL_5_WIDTH = 262144"
definition FEATURE_LEVEL_5_HEIGHT :: nat where "FEATURE_LEVEL_5_HEIGHT = 262144"
definition FEATURE_LEVEL_5_PIXELS :: nat where "FEATURE_LEVEL_5_PIXELS = 268435456"

definition MAX_IMAGE_WIDTH :: "build \<Rightarrow> nat" where
  "MAX_IMAGE_WIDTH b = (if QT_POINTER_SIZE b < 8 then 32767 else FEATURE_LEVEL_5_WIDTH)"

definition MAX_IMAGE_HEIGHT :: "build \<Rightarrow> nat" where
  "MAX_IMAGE_HEIGHT b = (if QT_POINTER_SIZE b < 8 then 32767 else FEATURE_LEVEL_5_HEIGHT)"

definition MAX_IMAGE_PIXELS :: "build \<Rightarrow> nat" where
  "MAX_IMAGE_PIXELS b = FEATURE_LEVEL_5_PIXELS"

text \<open>QJpegXLHandler::QJpegXLHandler(): the handler as constructed, on a device.\<close>

definition new_handler :: "QIODevice \<Rightarrow> JxlBasicInfo \<Rightarrow> 'img \<Rightarrow> 'img QJpegXLHandler" where
  "new_handler d uninitialised_info null_image =
     \<lparr>device = d,
      m_parseState = ParseJpegXLNotParsed,
      m_quality = 90,
      m_currentimage_index = 0,
      m_previousimage_index = - 1,
      m_transformations = TransformationNone,
      m_decoder = False,
      m_runner = False,
      m_next_image_delay = 0,
      m_isCMYK = False,
      m_cmyk_channel_id = 0,
      m_alpha_channel_id = 0,
      m_rawData = [],
      m_basicinfo = uninitialised_info,
      m_framedelays = [],
      m_current_image = null_image,
      undefined_behaviour = False\<rparr>"

section \<open>Options\<close>

text \<open>
  QJpegXLHandler::setOption. The value is the integer that \<open>value.toInt()\<close> gives.
  The case ImageTransformation exists only under JXL\_QT\_AUTOTRANSFORM (Qt 6.7.3 or
  later); the base class's setOption, called last, stores nothing.
\<close>

definition setOption ::
  "build \<Rightarrow> ImageOption \<Rightarrow> int \<Rightarrow> 'img QJpegXLHandler \<Rightarrow> 'img QJpegXLHandler" where
  "setOption b option v h =
     (case option of
        Quality \<Rightarrow>
          h\<lparr>m_quality := (if v > 100 then 100 else if v < 0 then 90 else v)\<rparr>
      | ImageTransformation \<Rightarrow>
          if JXL_QT_AUTOTRANSFORM b then
            (if v \<noteq> 0 then
               (if v > 0 \<and> v < 8 then h\<lparr>m_transformations := v\<rparr> else h)
             else h)
          else h
      | _ \<Rightarrow> h)"

text \<open>QJpegXLHandler::write, lines 883-887: the quality is clamped once more.\<close>

definition write_quality :: "int \<Rightarrow> int" where
  "write_quality q = (if q > 100 then 100 else if q < 0 then 90 else q)"

text \<open>QJpegXLHandler::write, lines 898-913: the orientation written to the basic info.\<close>

definition write_orientation :: "int \<Rightarrow> JxlOrientation" where
  "write_orientation t =
     (if t = TransformationMirror then JXL_ORIENT_FLIP_HORIZONTAL
      else if t = TransformationRotate180 then JXL_ORIENT_ROTATE_180
      else if t = TransformationFlip then JXL_ORIENT_FLIP_VERTICAL
      else if t = TransformationFlipAndRotate90 then JXL_ORIENT_TRANSPOSE
      else if t = TransformationRotate90 then JXL_ORIENT_ROTATE_90_CW
      else if t = TransformationMirrorAndRotate90 then JXL_ORIENT_ANTI_TRANSPOSE
      else if t = TransformationRotate270 then JXL_ORIENT_ROTATE_90_CCW
      else JXL_ORIENT_IDENTITY)"

text \<open>
  The orientation that belongs to each value of the option, as the names of Qt's flags
  and of libjxl's codes pair them: none, mirror, flip, rotate 180, rotate 90, mirror
  and rotate 90, flip and rotate 90, rotate 270.
\<close>

definition orientation_of :: "int \<Rightarrow> JxlOrientation" where
  "orientation_of v =
     [JXL_ORIENT_IDENTITY, JXL_ORIENT_FLIP_HORIZONTAL, JXL_ORIENT_FLIP_VERTICAL,
      JXL_ORIENT_ROTATE_180, JXL_ORIENT_ROTATE_90_CW, JXL_ORIENT_ANTI_TRANSPOSE,
      JXL_ORIENT_TRANSPOSE, JXL_ORIENT_ROTATE_90_CCW] ! nat v"

section \<open>The signature probe\<close>

text \<open>
  QJpegXLHandler::canRead(QIODevice *), with the device after the call. A null device
  is \<open>None\<close>. \<open>signature_check\<close> is libjxl's JxlSignatureCheck.
\<close>

definition canRead_device ::
  "(byte list \<Rightarrow> JxlSignature) \<Rightarrow> QIODevice option \<Rightarrow> bool \<times> QIODevice option" where
  "canRead_device signature_check dev =
     (case dev of
        None \<Rightarrow> (False, None)
      | Some d \<Rightarrow>
          (let (header, d') = peek 32 d in
           if length header < 12 then (False, Some d')
           else
             (let signature = signature_check header in
              if signature = JXL_SIG_CODESTREAM \<or> signature = JXL_SIG_CONTAINER
              then (True, Some d')
              else (False, Some d'))))"

section \<open>The double arithmetic of the frame delay\<close>

text \<open>
  countALLFrames computes a delay in double precision and converts it to int. The
  operands are uint32 values and the constants 1000.0 and 0.5, so every value met is
  zero or lies between \<open>2\<^sup>-\<^sup>3\<^sup>2\<close> and \<open>2\<^sup>7\<^sup>5\<close>: a non-negative normal double. Such a
  double is written as a fraction (numerator, denominator) of naturals.
  \<open>fl p q\<close> is the double nearest to \<open>p / q\<close>, ties to the even significand (IEEE 754
  binary64, 53 significant bits, the default rounding): with \<open>e = binade p q\<close> the
  exponent of \<open>p / q\<close>, the doubles around it are the multiples of \<open>2\<^sup>e\<^sup>-\<^sup>5\<^sup>2\<close>.
\<close>

fun bitlength :: "nat \<Rightarrow> nat" where
  "bitlength n = (if n = 0 then 0 else Suc (bitlength (n div 2)))"

declare bitlength.simps [simp del]

definition binade :: "nat \<Rightarrow> nat \<Rightarrow> int" where
  "binade p q =
     (let d = int (bitlength p) - int (bitlength q) in
      if (if 0 \<le> d then q * 2 ^ nat d \<le> p else q \<le> p * 2 ^ nat (- d)) then d else d - 1)"

definition round_half_even :: "nat \<Rightarrow> nat \<Rightarrow> nat" where
  "round_half_even a b =
     (let m = a div b; r = a mod b in
      if 2 * r < b then m
      else if b < 2 * r then m + 1
      else if even m then m else m + 1)"

type_synonym double = "nat \<times> nat"

definition fl :: "nat \<Rightarrow> nat \<Rightarrow> double" where
  "fl p q =
     (if p = 0 \<or> q = 0 then (0, 1)
      else
        (let e = binade p q in
         if 52 \<le> e
         then (round_half_even p (q * 2 ^ nat (e - 52)) * 2 ^ nat (e - 52), 1)
         else (round_half_even (p * 2 ^ nat (52 - e)) q, 2 ^ nat (52 - e))))"

text \<open>A uint32 converts to double exactly. The operations round their exact result.\<close>

definition double_of_uint32 :: "nat \<Rightarrow> double" where
  "double_of_uint32 n = (n, 1)"

definition double_mul :: "double \<Rightarrow> double \<Rightarrow> double" where
  "double_mul x y = fl (fst x * fst y) (snd x * snd y)"

definition double_div :: "double \<Rightarrow> double \<Rightarrow> double" where
  "double_div x y = fl (fst x * snd y) (snd x * fst y)"

definition double_add :: "double \<Rightarrow> double \<Rightarrow> double" where
  "double_add x y = fl (fst x * snd y + fst y * snd x) (snd x * snd y)"

text \<open>
  The cast \<open>(int)\<close> truncates; a value that does not fit a 32-bit int is undefined
  behaviour in C++, \<open>None\<close> here.
\<close>

definition double_to_int :: "double \<Rightarrow> int option" where
  "double_to_int x =
     (let t = fst x div snd x in if t \<le> 2147483647 then Some (int t) else None)"

record JxlFrameHeader =
  duration :: nat
  is_last :: bool

text \<open>
  countALLFrames, lines 381-385:
  \<^verbatim>\<open>delay = (int)(0.5 + 1000.0 * frame_header.duration * tps_denominator / tps_numerator)\<close>
  when both parts of the tick rate are positive, 0 otherwise. C++ evaluates
  \<open>0.5 + (((1000.0 * duration) * tps_denominator) / tps_numerator)\<close>.
\<close>

definition frame_delay :: "JxlAnimationHeader \<Rightarrow> JxlFrameHeader \<Rightarrow> int option" where
  "frame_delay a f =
     (if tps_denominator a > 0 \<and> tps_numerator a > 0 then
        double_to_int
          (double_add (1, 2)
             (double_div
                (double_mul
                   (double_mul (1000, 1) (double_of_uint32 (duration f)))
                   (double_of_uint32 (tps_denominator a)))
                (double_of_uint32 (tps_numerator a))))
      else Some 0)"

section \<open>The answers of libjxl\<close>

text \<open>
  Each method takes the answers that the library gives to the calls the method makes.
  A loop of the source that asks the decoder for its next event until the decoder
  is done takes the list of the events, and the decoder answers JXL\_DEC\_SUCCESS
  once the list is used up: the input is finite and closed (JxlDecoderCloseInput).
\<close>

record ensureDecoder_lib =
  ed_create :: bool
  ed_idealThreadCount :: int
  ed_runnerCreate :: bool
  ed_setParallelRunner :: JxlDecoderStatus
  ed_setInput :: JxlDecoderStatus
  ed_subscribe :: JxlDecoderStatus
  ed_process :: JxlDecoderStatus
  ed_getBasicInfo :: "JxlDecoderStatus \<times> JxlBasicInfo"

record rewind_lib =
  rw_setParallelRunner :: JxlDecoderStatus
  rw_setInput :: JxlDecoderStatus
  rw_subscribe :: JxlDecoderStatus
  rw_process :: JxlDecoderStatus

record frame_event =
  fe_status :: JxlDecoderStatus
  fe_header_status :: JxlDecoderStatus
  fe_header :: JxlFrameHeader

datatype JxlExtraChannelType =
    JXL_CHANNEL_ALPHA
  | JXL_CHANNEL_DEPTH
  | JXL_CHANNEL_SPOT_COLOR
  | JXL_CHANNEL_SELECTION_MASK
  | JXL_CHANNEL_BLACK
  | JXL_CHANNEL_CFA
  | JXL_CHANNEL_THERMAL
  | JXL_CHANNEL_UNKNOWN
  | JXL_CHANNEL_OPTIONAL

text \<open>
  extractBox: the raw size of the box, the answer to the first JxlDecoderSetBoxBuffer,
  the status of the \<open>i\<close>-th JxlDecoderProcessInput of the loop, the answer to the
  JxlDecoderSetBoxBuffer that follows it when the buffer has grown, and the unused
  bytes that the last JxlDecoderReleaseBoxBuffer reports.
\<close>

record extractBox_lib =
  eb_sizeRaw :: "JxlDecoderStatus \<times> nat"
  eb_setBoxBuffer :: JxlDecoderStatus
  eb_process :: "nat \<Rightarrow> JxlDecoderStatus"
  eb_setBoxBuffer_more :: "nat \<Rightarrow> JxlDecoderStatus"
  eb_unused :: nat

record container_event =
  ce_status :: JxlDecoderStatus
  ce_boxType_status :: JxlDecoderStatus
  ce_boxType :: string
  ce_extract :: extractBox_lib

record decodeContainer_lib =
  dc_setInput :: JxlDecoderStatus
  dc_subscribe :: JxlDecoderStatus
  dc_events :: "container_event list"

text \<open>
  countALLFrames: the first event, the events of the frame loop, what Qt says of the
  colour space built from the profile (isValid, colorModel is Cmyk), the answer of
  JxlDecoderGetExtraChannelInfo for each index, and the answers to decodeContainer
  and rewind.
\<close>

record countALLFrames_lib =
  cf_process :: JxlDecoderStatus
  cf_frames :: "frame_event list"
  cf_colorspace_valid :: bool
  cf_colorspace_cmyk :: bool
  cf_channel_info :: "nat \<Rightarrow> JxlDecoderStatus \<times> JxlExtraChannelType"
  cf_container :: decodeContainer_lib
  cf_rewind :: rewind_lib

text \<open>
  decode\_one\_frame, lines 485-796, asks the decoder for the pixels of the next
  frame: it allocates the image (imageAlloc) and the channel buffers, hands them to
  the decoder, waits for JXL\_DEC\_FULL\_IMAGE and converts. Every failure on the way
  sets ParseJpegXLError and returns false, after \<open>m_current_image\<close> has been assigned
  or before. The outcome of the whole stage is one answer: the decoded frame, or a
  failure with the image it left in \<open>m_current_image\<close>, if any.
\<close>

datatype 'img frame_pixels = Decoded 'img | Failed "'img option"

record 'img lib =
  JxlSignatureCheck :: "byte list \<Rightarrow> JxlSignature"
  l_ensureDecoder :: ensureDecoder_lib
  l_countALLFrames :: countALLFrames_lib
  l_pixels :: "'img frame_pixels"
  l_rewind :: rewind_lib

section \<open>Parsing: ensureDecoder and ensureParsed\<close>

text \<open>
  QJpegXLHandler::ensureDecoder. A method returns its bool and the handler after it.
\<close>

definition ensureDecoder ::
  "build \<Rightarrow> 'img lib \<Rightarrow> 'img QJpegXLHandler \<Rightarrow> bool \<times> 'img QJpegXLHandler" where
  "ensureDecoder b l h =
     (if m_decoder h then (True, h)
      else
        (let (data, dev) = readAll (device h);
             h1 = h\<lparr>device := dev, m_rawData := data\<rparr>;
             signature = JxlSignatureCheck l data;
             ed = l_ensureDecoder l
         in
         if data = [] then (False, h1)
         else if signature \<noteq> JXL_SIG_CODESTREAM \<and> signature \<noteq> JXL_SIG_CONTAINER
           then (False, h1\<lparr>m_parseState := ParseJpegXLError\<rparr>)
         else if \<not> ed_create ed
           then (False, h1\<lparr>m_parseState := ParseJpegXLError\<rparr>)
         else
           (let h2 = h1\<lparr>m_decoder := True\<rparr>;
                with_runner = (\<not> m_runner h2 \<and> ed_idealThreadCount ed \<ge> 4);
                h3 = (if with_runner then h2\<lparr>m_runner := ed_runnerCreate ed\<rparr> else h2)
            in
            if with_runner \<and> ed_setParallelRunner ed \<noteq> JXL_DEC_SUCCESS
              then (False, h3\<lparr>m_parseState := ParseJpegXLError\<rparr>)
            else if ed_setInput ed \<noteq> JXL_DEC_SUCCESS
              then (False, h3\<lparr>m_parseState := ParseJpegXLError\<rparr>)
            else if ed_subscribe ed = JXL_DEC_ERROR
              then (False, h3\<lparr>m_parseState := ParseJpegXLError\<rparr>)
            else if ed_process ed = JXL_DEC_ERROR
              then (False, h3\<lparr>m_parseState := ParseJpegXLError\<rparr>)
            else if ed_process ed = JXL_DEC_NEED_MORE_INPUT
              then (False, h3\<lparr>m_parseState := ParseJpegXLError\<rparr>)
            else
              (let h4 = h3\<lparr>m_basicinfo := snd (ed_getBasicInfo ed)\<rparr> in
               if fst (ed_getBasicInfo ed) \<noteq> JXL_DEC_SUCCESS
                 then (False, h4\<lparr>m_parseState := ParseJpegXLError\<rparr>)
               else if xsize (m_basicinfo h4) = 0 \<or> ysize (m_basicinfo h4) = 0
                 then (False, h4\<lparr>m_parseState := ParseJpegXLError\<rparr>)
               else if xsize (m_basicinfo h4) > MAX_IMAGE_WIDTH b
                     \<or> ysize (m_basicinfo h4) > MAX_IMAGE_HEIGHT b
                 then (False, h4\<lparr>m_parseState := ParseJpegXLError\<rparr>)
               else (True, h4\<lparr>m_parseState := ParseJpegXLBasicInfoParsed\<rparr>)))))"

text \<open>QJpegXLHandler::ensureParsed (const, it works on the handler all the same).\<close>

definition ensureParsed ::
  "build \<Rightarrow> 'img lib \<Rightarrow> 'img QJpegXLHandler \<Rightarrow> bool \<times> 'img QJpegXLHandler" where
  "ensureParsed b l h =
     (if m_parseState h = ParseJpegXLSuccess \<or> m_parseState h = ParseJpegXLBasicInfoParsed
          \<or> m_parseState h = ParseJpegXLFinished
      then (True, h)
      else if m_parseState h = ParseJpegXLError then (False, h)
      else ensureDecoder b l h)"

section \<open>Rewinding\<close>

text \<open>QJpegXLHandler::rewind.\<close>

definition rewind :: "rewind_lib \<Rightarrow> 'img QJpegXLHandler \<Rightarrow> bool \<times> 'img QJpegXLHandler" where
  "rewind rw h0 =
     (let h = h0\<lparr>m_currentimage_index := 0\<rparr> in
      if m_runner h \<and> rw_setParallelRunner rw \<noteq> JXL_DEC_SUCCESS
        then (False, h\<lparr>m_parseState := ParseJpegXLError\<rparr>)
      else if rw_setInput rw \<noteq> JXL_DEC_SUCCESS
        then (False, h\<lparr>m_parseState := ParseJpegXLError\<rparr>)
      else if \<not> uses_original_profile (m_basicinfo h) \<and> \<not> have_animation (m_basicinfo h)
        then
          (if rw_subscribe rw \<noteq> JXL_DEC_SUCCESS
             then (False, h\<lparr>m_parseState := ParseJpegXLError\<rparr>)
           else if rw_process rw \<noteq> JXL_DEC_COLOR_ENCODING
             then (False, h\<lparr>m_parseState := ParseJpegXLError\<rparr>)
           else (True, h))
      else
        (if rw_subscribe rw \<noteq> JXL_DEC_SUCCESS
           then (False, h\<lparr>m_parseState := ParseJpegXLError\<rparr>)
         else (True, h)))"

section \<open>Container boxes\<close>

text \<open>
  The do-while loop of extractBox, lines 2038-2059, on the size of the output buffer.
  \<open>i\<close> counts the calls of JxlDecoderProcessInput. The loop is left with a status
  other than JXL\_DEC\_BOX\_NEED\_MORE\_OUTPUT, or by a return inside it.
\<close>

datatype box_loop = BoxReturnedFalse nat | BoxLoopLeft JxlDecoderStatus nat

function extractBox_loop :: "extractBox_lib \<Rightarrow> nat \<Rightarrow> nat \<Rightarrow> box_loop" where
  "extractBox_loop eb i sz =
     (if eb_process eb i = JXL_DEC_BOX_NEED_MORE_OUTPUT then
        (if sz > 4194304 then BoxReturnedFalse sz
         else if eb_setBoxBuffer_more eb i \<noteq> JXL_DEC_SUCCESS
           then BoxReturnedFalse (sz + 16384)
         else extractBox_loop eb (Suc i) (sz + 16384))
      else BoxLoopLeft (eb_process eb i) sz)"
  by pat_completeness auto
termination
  by (relation "measure (\<lambda>(eb, i, sz). 4210689 - sz)") auto

declare extractBox_loop.simps [simp del]

text \<open>
  QJpegXLHandler::extractBox(output, container\_size): the bool, the size of
  \<open>output\<close> after the call (\<open>out0\<close> before it) and the handler. The body exists from
  libjxl 0.11.0 on.
\<close>

definition extractBox ::
  "build \<Rightarrow> extractBox_lib \<Rightarrow> nat \<Rightarrow> nat \<Rightarrow> 'img QJpegXLHandler
    \<Rightarrow> bool \<times> nat \<times> 'img QJpegXLHandler" where
  "extractBox b eb out0 container_size h =
     (if \<not> JPEGXL_VERSION_0_11 b then (True, out0, h)
      else
        (let rawboxsize = snd (eb_sizeRaw eb) in
         if fst (eb_sizeRaw eb) \<noteq> JXL_DEC_SUCCESS
           then (False, out0, h\<lparr>m_parseState := ParseJpegXLError\<rparr>)
         else if rawboxsize > container_size
           then (False, out0, h\<lparr>m_parseState := ParseJpegXLError\<rparr>)
         else if eb_setBoxBuffer eb \<noteq> JXL_DEC_SUCCESS
           then (False, rawboxsize, h\<lparr>m_parseState := ParseJpegXLError\<rparr>)
         else
           (case extractBox_loop eb 0 rawboxsize of
              BoxReturnedFalse sz \<Rightarrow> (False, sz, h\<lparr>m_parseState := ParseJpegXLError\<rparr>)
            | BoxLoopLeft status sz \<Rightarrow>
                if status \<noteq> JXL_DEC_BOX_COMPLETE
                  then (False, sz, h\<lparr>m_parseState := ParseJpegXLError\<rparr>)
                else (True, sz - eb_unused eb, h))))"

text \<open>
  The while loop of decodeContainer, lines 1940-1983. The boxes go to local byte
  arrays, whose contents end in the Exif and XMP blobs; only the control flow and the
  parse state are kept.
\<close>

fun decodeContainer_loop ::
  "build \<Rightarrow> nat \<Rightarrow> container_event list \<Rightarrow> bool \<Rightarrow> bool \<Rightarrow> 'img QJpegXLHandler
    \<Rightarrow> bool \<times> 'img QJpegXLHandler" where
  "decodeContainer_loop b len [] search_exif search_xmp h = (True, h)"
| "decodeContainer_loop b len (ev # evs) search_exif search_xmp h =
     (if \<not> (search_exif \<or> search_xmp) then (True, h)
      else if ce_status ev = JXL_DEC_SUCCESS then (True, h)
      else if ce_status ev = JXL_DEC_BOX then
        (if ce_boxType_status ev \<noteq> JXL_DEC_SUCCESS
           then (False, h\<lparr>m_parseState := ParseJpegXLError\<rparr>)
         else if ce_boxType ev = ''Exif'' \<and> search_exif then
           (if \<not> fst (extractBox b (ce_extract ev) 0 len h)
              then (False, snd (snd (extractBox b (ce_extract ev) 0 len h)))
            else decodeContainer_loop b len evs False search_xmp
                   (snd (snd (extractBox b (ce_extract ev) 0 len h))))
         else if ce_boxType ev = ''xml '' \<and> search_xmp then
           (if \<not> fst (extractBox b (ce_extract ev) 0 len h)
              then (False, snd (snd (extractBox b (ce_extract ev) 0 len h)))
            else decodeContainer_loop b len evs search_exif False
                   (snd (snd (extractBox b (ce_extract ev) 0 len h))))
         else decodeContainer_loop b len evs search_exif search_xmp h)
      else (False, h\<lparr>m_parseState := ParseJpegXLError\<rparr>))"

text \<open>QJpegXLHandler::decodeContainer.\<close>

definition decodeContainer ::
  "build \<Rightarrow> (byte list \<Rightarrow> JxlSignature) \<Rightarrow> decodeContainer_lib \<Rightarrow> 'img QJpegXLHandler
    \<Rightarrow> bool \<times> 'img QJpegXLHandler" where
  "decodeContainer b signature_check dc h =
     (if \<not> JPEGXL_VERSION_0_11 b then (True, h)
      else if \<not> have_container (m_basicinfo h) then (True, h)
      else if length (m_rawData h) = 0
        then (False, h\<lparr>m_parseState := ParseJpegXLError\<rparr>)
      else if signature_check (m_rawData h) \<noteq> JXL_SIG_CONTAINER then (True, h)
      else if dc_setInput dc \<noteq> JXL_DEC_SUCCESS
        then (False, h\<lparr>m_parseState := ParseJpegXLError\<rparr>)
      else if dc_subscribe dc \<noteq> JXL_DEC_SUCCESS
        then (False, h\<lparr>m_parseState := ParseJpegXLError\<rparr>)
      else decodeContainer_loop b (length (m_rawData h)) (dc_events dc) True True h)"

section \<open>Counting the frames\<close>

text \<open>
  The for loop of countALLFrames, lines 358-392, on the delays collected so far. It
  ends when the decoder answers JXL\_DEC\_SUCCESS or a frame header has
  \<open>is_last\<close>, and returns false from inside on any other answer.
\<close>

datatype frame_loop = FramesCounted "int list" | FramesFailed "int list" | FramesUndefined

fun count_loop :: "JxlAnimationHeader \<Rightarrow> frame_event list \<Rightarrow> int list \<Rightarrow> frame_loop" where
  "count_loop a [] delays = FramesCounted delays"
| "count_loop a (ev # evs) delays =
     (if fe_status ev = JXL_DEC_SUCCESS then FramesCounted delays
      else if fe_status ev \<noteq> JXL_DEC_FRAME then FramesFailed delays
      else if fe_header_status ev \<noteq> JXL_DEC_SUCCESS then FramesFailed delays
      else
        (case frame_delay a (fe_header ev) of
           None \<Rightarrow> FramesUndefined
         | Some delay \<Rightarrow>
             if is_last (fe_header ev) then FramesCounted (delays @ [delay])
             else count_loop a evs (delays @ [delay])))"

text \<open>countALLFrames, lines 354-407: the delays of an animation or of a static picture.\<close>

definition count_frames ::
  "frame_event list \<Rightarrow> 'img QJpegXLHandler \<Rightarrow> bool \<times> 'img QJpegXLHandler" where
  "count_frames evs h =
     (if have_animation (m_basicinfo h) then
        (case count_loop (animation (m_basicinfo h)) evs (m_framedelays h) of
           FramesUndefined \<Rightarrow> (False, h\<lparr>undefined_behaviour := True\<rparr>)
         | FramesFailed delays \<Rightarrow>
             (False, h\<lparr>m_framedelays := delays, m_parseState := ParseJpegXLError\<rparr>)
         | FramesCounted delays \<Rightarrow>
             if delays = []
               then (False, h\<lparr>m_framedelays := delays, m_parseState := ParseJpegXLError\<rparr>)
             else if length delays = 1
               then (True, h\<lparr>m_framedelays := delays,
                               m_basicinfo := (m_basicinfo h)\<lparr>have_animation := False\<rparr>\<rparr>)
             else (True, h\<lparr>m_framedelays := delays\<rparr>))
      else (True, h\<lparr>m_framedelays := [0]\<rparr>))"

text \<open>
  CMYK detection, lines 411-465 (Qt 6.8 or later). \<open>find_alpha\<close> is the inner search
  for the alpha channel: \<open>None\<close> when the decoder fails, \<open>Some None\<close> when no
  channel of the range is an alpha channel.
\<close>

fun find_alpha ::
  "(nat \<Rightarrow> JxlDecoderStatus \<times> JxlExtraChannelType) \<Rightarrow> nat list \<Rightarrow> nat option option" where
  "find_alpha info [] = Some None"
| "find_alpha info (alpha_index # rest) =
     (if fst (info alpha_index) \<noteq> JXL_DEC_SUCCESS then None
      else if snd (info alpha_index) = JXL_CHANNEL_ALPHA then Some (Some alpha_index)
      else find_alpha info rest)"

fun cmyk_scan ::
  "(nat \<Rightarrow> JxlDecoderStatus \<times> JxlExtraChannelType) \<Rightarrow> bool \<Rightarrow> nat list \<Rightarrow> bool
    \<Rightarrow> 'img QJpegXLHandler \<Rightarrow> bool \<times> 'img QJpegXLHandler" where
  "cmyk_scan info cmyk_space [] alpha_found h = (True, h)"
| "cmyk_scan info cmyk_space (index # rest) alpha_found h =
     (if fst (info index) \<noteq> JXL_DEC_SUCCESS
        then (False, h\<lparr>m_parseState := ParseJpegXLError\<rparr>)
      else if snd (info index) = JXL_CHANNEL_BLACK then
        (if cmyk_space then
           (if alpha_bits (m_basicinfo h) > 0 \<and> \<not> alpha_found then
              (case find_alpha info [Suc index ..< num_extra_channels (m_basicinfo h)] of
                 None \<Rightarrow>
                   (False, h\<lparr>m_isCMYK := True, m_cmyk_channel_id := index,
                              m_parseState := ParseJpegXLError\<rparr>)
               | Some None \<Rightarrow>
                   (False, h\<lparr>m_isCMYK := True, m_cmyk_channel_id := index,
                              m_parseState := ParseJpegXLError\<rparr>)
               | Some (Some alpha_index) \<Rightarrow>
                   (True, h\<lparr>m_isCMYK := True, m_cmyk_channel_id := index,
                             m_alpha_channel_id := alpha_index\<rparr>))
            else (True, h\<lparr>m_isCMYK := True, m_cmyk_channel_id := index\<rparr>))
         else (True, h))
      else if snd (info index) = JXL_CHANNEL_ALPHA \<and> \<not> alpha_found
        then cmyk_scan info cmyk_space rest True (h\<lparr>m_alpha_channel_id := index\<rparr>)
      else cmyk_scan info cmyk_space rest alpha_found h)"

definition detect_cmyk ::
  "build \<Rightarrow> countALLFrames_lib \<Rightarrow> 'img QJpegXLHandler \<Rightarrow> bool \<times> 'img QJpegXLHandler" where
  "detect_cmyk b cf h =
     (if QT_VERSION_6_8 b \<and> uses_original_profile (m_basicinfo h)
          \<and> num_color_channels (m_basicinfo h) = 3 \<and> cf_colorspace_valid cf
      then cmyk_scan (cf_channel_info cf) (cf_colorspace_cmyk cf)
             [0 ..< num_extra_channels (m_basicinfo h)] False h
      else (True, h))"

text \<open>
  QJpegXLHandler::countALLFrames. Lines 254-352 plan the pixel format and fetch the
  colour profile; they return nowhere and write only members that are left out.
\<close>

definition countALLFrames ::
  "build \<Rightarrow> 'img lib \<Rightarrow> 'img QJpegXLHandler \<Rightarrow> bool \<times> 'img QJpegXLHandler" where
  "countALLFrames b l h =
     (let cf = l_countALLFrames l in
      if m_parseState h \<noteq> ParseJpegXLBasicInfoParsed then (False, h)
      else if cf_process cf \<noteq> JXL_DEC_COLOR_ENCODING
        then (False, h\<lparr>m_parseState := ParseJpegXLError\<rparr>)
      else
        (let (ok1, h1) = count_frames (cf_frames cf) h in
         if \<not> ok1 then (False, h1)
         else
           (let (ok2, h2) = detect_cmyk b cf h1 in
            if \<not> ok2 then (False, h2)
            else
              (let (ok3, h3) =
                     (if JXL_DECODE_BOXES_DISABLED b then (True, h2)
                      else decodeContainer b (JxlSignatureCheck l) (cf_container cf) h2)
               in
               if \<not> ok3 then (False, h3)
               else
                 (let (ok4, h4) = rewind (cf_rewind cf) h3 in
                  if \<not> ok4 then (False, h4)
                  else
                    (case m_framedelays h4 of
                       [] \<Rightarrow> (False, h4\<lparr>undefined_behaviour := True\<rparr>)
                     | delay # _ \<Rightarrow>
                         (True, h4\<lparr>m_next_image_delay := delay,
                                   m_parseState := ParseJpegXLSuccess\<rparr>)))))))"

text \<open>QJpegXLHandler::ensureALLCounted.\<close>

definition ensureALLCounted ::
  "build \<Rightarrow> 'img lib \<Rightarrow> 'img QJpegXLHandler \<Rightarrow> bool \<times> 'img QJpegXLHandler" where
  "ensureALLCounted b l h =
     (let (parsed, h1) = ensureParsed b l h in
      if \<not> parsed then (False, h1)
      else if m_parseState h1 = ParseJpegXLSuccess \<or> m_parseState h1 = ParseJpegXLFinished
        then (True, h1)
      else countALLFrames b l h1)"

section \<open>Reading and seeking\<close>

text \<open>
  QJpegXLHandler::decode\_one\_frame: the pixels (see \<open>frame_pixels\<close>), then lines
  798-819. \<open>m_framedelays[m_currentimage_index]\<close> with the index out of range is
  undefined behaviour.
\<close>

definition decode_one_frame ::
  "'img lib \<Rightarrow> 'img QJpegXLHandler \<Rightarrow> bool \<times> 'img QJpegXLHandler" where
  "decode_one_frame l h =
     (case l_pixels l of
        Failed None \<Rightarrow> (False, h\<lparr>m_parseState := ParseJpegXLError\<rparr>)
      | Failed (Some img) \<Rightarrow>
          (False, h\<lparr>m_current_image := img, m_parseState := ParseJpegXLError\<rparr>)
      | Decoded img \<Rightarrow>
          (let h1 = h\<lparr>m_current_image := img\<rparr>;
               i = m_currentimage_index h1;
               n = int (length (m_framedelays h1))
           in
           if i < 0 \<or> n \<le> i then (False, h1\<lparr>undefined_behaviour := True\<rparr>)
           else
             (let h2 = h1\<lparr>m_next_image_delay := m_framedelays h1 ! nat i,
                          m_previousimage_index := i\<rparr>
              in
              if n > 1 then
                (let h3 = h2\<lparr>m_currentimage_index := i + 1\<rparr> in
                 if m_currentimage_index h3 \<ge> n then
                   (let (ok, h4) = rewind (l_rewind l) h3 in
                    if \<not> ok then (False, h4)
                    else (True, h4\<lparr>m_parseState := ParseJpegXLFinished\<rparr>))
                 else (True, h3\<lparr>m_parseState := ParseJpegXLSuccess\<rparr>))
              else (True, h2\<lparr>m_parseState := ParseJpegXLFinished\<rparr>))))"

text \<open>QJpegXLHandler::jumpToNextImage. JxlDecoderSkipFrames returns nothing.\<close>

definition jumpToNextImage ::
  "build \<Rightarrow> 'img lib \<Rightarrow> 'img QJpegXLHandler \<Rightarrow> bool \<times> 'img QJpegXLHandler" where
  "jumpToNextImage b l h =
     (let (counted, h1) = ensureALLCounted b l h in
      if \<not> counted then (False, h1)
      else if int (length (m_framedelays h1)) > 1 then
        (let h2 = h1\<lparr>m_currentimage_index := m_currentimage_index h1 + 1\<rparr> in
         if m_currentimage_index h2 \<ge> int (length (m_framedelays h2)) then
           (let (ok, h3) = rewind (l_rewind l) h2 in
            if \<not> ok then (False, h3)
            else (True, h3\<lparr>m_parseState := ParseJpegXLSuccess\<rparr>))
         else (True, h2\<lparr>m_parseState := ParseJpegXLSuccess\<rparr>))
      else (True, h1\<lparr>m_parseState := ParseJpegXLSuccess\<rparr>))"

text \<open>
  QJpegXLHandler::read(QImage *image): the bool, the image assigned to \<open>*image\<close> if
  one is, and the handler.
\<close>

definition read ::
  "build \<Rightarrow> 'img lib \<Rightarrow> 'img QJpegXLHandler \<Rightarrow> bool \<times> 'img option \<times> 'img QJpegXLHandler" where
  "read b l h =
     (let (counted, h1) = ensureALLCounted b l h in
      if \<not> counted then (False, None, h1)
      else if m_currentimage_index h1 = m_previousimage_index h1 then
        (let (ok, h2) = jumpToNextImage b l h1 in (ok, Some (m_current_image h1), h2))
      else
        (let (ok, h2) = decode_one_frame l h1 in
         if ok then (True, Some (m_current_image h2), h2) else (False, None, h2)))"

text \<open>QJpegXLHandler::jumpToImage.\<close>

definition jumpToImage ::
  "build \<Rightarrow> 'img lib \<Rightarrow> int \<Rightarrow> 'img QJpegXLHandler \<Rightarrow> bool \<times> 'img QJpegXLHandler" where
  "jumpToImage b l imageNumber h =
     (let (counted, h1) = ensureALLCounted b l h in
      if \<not> counted then (False, h1)
      else if imageNumber < 0 \<or> imageNumber \<ge> int (length (m_framedelays h1)) then (False, h1)
      else if imageNumber = m_currentimage_index h1
        then (True, h1\<lparr>m_parseState := ParseJpegXLSuccess\<rparr>)
      else if imageNumber > m_currentimage_index h1
        then (True, h1\<lparr>m_currentimage_index := imageNumber,
                        m_parseState := ParseJpegXLSuccess\<rparr>)
      else
        (let (ok, h2) = rewind (l_rewind l) h1 in
         if \<not> ok then (False, h2)
         else (True, h2\<lparr>m_currentimage_index := imageNumber,
                         m_parseState := ParseJpegXLSuccess\<rparr>)))"

text \<open>QJpegXLHandler::canRead() const. setFormat touches the base class only.\<close>

definition canRead :: "(byte list \<Rightarrow> JxlSignature) \<Rightarrow> 'img QJpegXLHandler \<Rightarrow> bool" where
  "canRead signature_check h =
     (if m_parseState h = ParseJpegXLNotParsed
          \<and> \<not> fst (canRead_device signature_check (Some (device h)))
      then False
      else if m_parseState h \<noteq> ParseJpegXLError then
        (if m_parseState h = ParseJpegXLFinished then False else True)
      else False)"

text \<open>
  QJpegXLHandler::imageCount, nextImageDelay and loopCount, with the handler after.
  In loopCount the conditional \<^verbatim>\<open>(num_loops > 0) ? num_loops - 1 : -1\<close> has the type
  uint32\_t of \<open>num_loops\<close>, so \<open>-1\<close> is 4294967295 there, and the method returns an int:
  \<open>uint32_to_int\<close> is that conversion, which gives a value of \<open>2\<^sup>3\<^sup>1\<close> or more as
  the value minus \<open>2\<^sup>3\<^sup>2\<close>.
\<close>

definition imageCount ::
  "build \<Rightarrow> 'img lib \<Rightarrow> 'img QJpegXLHandler \<Rightarrow> int \<times> 'img QJpegXLHandler" where
  "imageCount b l h =
     (let (parsed, h1) = ensureParsed b l h in
      if \<not> parsed then (0, h1)
      else if m_parseState h1 = ParseJpegXLBasicInfoParsed \<and> \<not> have_animation (m_basicinfo h1)
        then (1, h1)
      else
        (let (counted, h2) =
               (if m_parseState h1 = ParseJpegXLBasicInfoParsed
                then ensureALLCounted b l h1 else (True, h1))
         in
         if \<not> counted then (0, h2)
         else if m_framedelays h2 \<noteq> [] then (int (length (m_framedelays h2)), h2)
         else (0, h2)))"

definition nextImageDelay ::
  "build \<Rightarrow> 'img lib \<Rightarrow> 'img QJpegXLHandler \<Rightarrow> int \<times> 'img QJpegXLHandler" where
  "nextImageDelay b l h =
     (let (counted, h1) = ensureALLCounted b l h in
      if \<not> counted then (0, h1)
      else if length (m_framedelays h1) < 2 then (0, h1)
      else (m_next_image_delay h1, h1))"

definition uint32_to_int :: "nat \<Rightarrow> int" where
  "uint32_to_int n =
     (if n mod 4294967296 < 2147483648 then int (n mod 4294967296)
      else int (n mod 4294967296) - 4294967296)"

definition loopCount ::
  "build \<Rightarrow> 'img lib \<Rightarrow> 'img QJpegXLHandler \<Rightarrow> int \<times> 'img QJpegXLHandler" where
  "loopCount b l h =
     (let (parsed, h1) = ensureParsed b l h in
      if \<not> parsed then (0, h1)
      else if have_animation (m_basicinfo h1) then
        (if num_loops (animation (m_basicinfo h1)) > 0
         then (uint32_to_int (num_loops (animation (m_basicinfo h1)) - 1), h1)
         else (uint32_to_int 4294967295, h1))
      else (0, h1))"

text \<open>
  The public methods of the handler that can change it, as one step. \<open>option\<close> parses
  like loopCount does (ensureParsed) and write clamps the quality.
\<close>

datatype 'img call =
    Call_read "'img lib"
  | Call_jumpToNextImage "'img lib"
  | Call_jumpToImage "'img lib" int
  | Call_imageCount "'img lib"
  | Call_nextImageDelay "'img lib"
  | Call_loopCount "'img lib"
  | Call_option "'img lib" ImageOption
  | Call_setOption ImageOption int
  | Call_write

fun step :: "build \<Rightarrow> 'img call \<Rightarrow> 'img QJpegXLHandler \<Rightarrow> 'img QJpegXLHandler" where
  "step b (Call_read l) h = snd (snd (read b l h))"
| "step b (Call_jumpToNextImage l) h = snd (jumpToNextImage b l h)"
| "step b (Call_jumpToImage l n) h = snd (jumpToImage b l n h)"
| "step b (Call_imageCount l) h = snd (imageCount b l h)"
| "step b (Call_nextImageDelay l) h = snd (nextImageDelay b l h)"
| "step b (Call_loopCount l) h = snd (loopCount b l h)"
| "step b (Call_option l opt) h =
     (if opt = Quality \<or> opt = OtherOption
          \<or> (opt = ImageTransformation \<and> \<not> JXL_QT_AUTOTRANSFORM b)
      then h else snd (ensureParsed b l h))"
| "step b (Call_setOption opt v) h = setOption b opt v h"
| "step b Call_write h = h\<lparr>m_quality := write_quality (m_quality h)\<rparr>"

text \<open>The handlers that calls can make of a new one, reading the device \<open>d\<close>.\<close>

inductive reachable ::
  "build \<Rightarrow> QIODevice \<Rightarrow> 'img QJpegXLHandler \<Rightarrow> bool" for b :: build and d :: QIODevice where
  reachable_new: "reachable b d (new_handler d info img)"
| reachable_step: "reachable b d h \<Longrightarrow> reachable b d (step b c h)"

section \<open>The PFM reader (pfm.cpp)\<close>

text \<open>
  PFMHeader. The device is the characters still to be read. Qt parses the numbers:
  \<open>toInt\<close> is QString::toInt (\<open>None\<close> when it reports failure) and \<open>toDouble\<close> is
  QString::toDouble, of whose result the header only asks whether it is zero and
  whether it is positive.
\<close>

datatype ByteOrder = BigEndian | LittleEndian

datatype double_sign = DoubleZero | DoublePositive | DoubleOther

record qt_numbers =
  toInt :: "string \<Rightarrow> int option"
  toDouble :: "string \<Rightarrow> double_sign option"

record PFMHeader =
  m_bw :: bool
  m_ps :: bool
  m_width :: int
  m_height :: int
  m_byteOrder :: ByteOrder

definition new_PFMHeader :: PFMHeader where
  "new_PFMHeader =
     \<lparr>m_bw = False, m_ps = False, m_width = 0, m_height = 0, m_byteOrder = BigEndian\<rparr>"

definition isValid :: "PFMHeader \<Rightarrow> bool" where
  "isValid hdr = (m_width hdr > 0 \<and> m_height hdr > 0)"

text \<open>QIODevice::readLine(maxSize): a line with its newline, of at most maxSize characters.\<close>

fun readLine :: "nat \<Rightarrow> string \<Rightarrow> string \<times> string" where
  "readLine maxSize [] = ([], [])"
| "readLine maxSize (c # d) =
     (if maxSize = 0 then ([], c # d)
      else if c = CHR 0x0A then ([c], d)
      else (c # fst (readLine (maxSize - 1) d), snd (readLine (maxSize - 1) d)))"

text \<open>QString::split on a space, empty parts kept.\<close>

fun split_space :: "string \<Rightarrow> string list" where
  "split_space [] = [[]]"
| "split_space (c # cs) =
     (if c = CHR '' '' then [] # split_space cs
      else (c # hd (split_space cs)) # tl (split_space cs))"

text \<open>PFMHeader::read: the bool, the header and the device after the call.\<close>

definition PFMHeader_read ::
  "qt_numbers \<Rightarrow> PFMHeader \<Rightarrow> string \<Rightarrow> bool \<times> PFMHeader \<times> string" where
  "PFMHeader_read qt hd0 d0 =
     (let pf = take 3 d0; d1 = drop 3 d0 in
      if pf \<noteq> [CHR ''P'', CHR ''F'', CHR 0x0A] \<and> pf \<noteq> [CHR ''P'', CHR ''f'', CHR 0x0A]
        then (False, hd0, d1)
      else
        (let hd1 = hd0\<lparr>m_bw := (pf \<noteq> [CHR ''P'', CHR ''F'', CHR 0x0A])\<rparr>;
             (wh, d2) = readLine 128 d1;
             list0 = split_space wh;
             photoshop = (length list0 = 1);
             hd2 = (if photoshop then hd1\<lparr>m_ps := True\<rparr> else hd1);
             list = (if photoshop then list0 @ [fst (readLine 128 d2)] else list0);
             d3 = (if photoshop then snd (readLine 128 d2) else d2)
         in
         if length list \<noteq> 2 then (False, hd2, d3)
         else
           (let (oline, d4) = readLine 128 d3 in
            case (toDouble qt oline, toInt qt (hd list), toInt qt (last list)) of
              (Some DoubleZero, Some w, Some h) \<Rightarrow> (False, hd2, d4)
            | (Some scale, Some w, Some h) \<Rightarrow>
                (let hd3 = hd2\<lparr>m_width := w, m_height := h,
                               m_byteOrder :=
                                 (if scale = DoublePositive then BigEndian else LittleEndian)\<rparr>
                 in (isValid hd3, hd3, d4))
            | _ \<Rightarrow> (False, hd2, d4))))"

text \<open>
  PFMHandler::read, lines 217-235. The QDataStream is the list of the floats it
  still yields, in the byte order of the header; \<open>s >> line[x]\<close> past its end sets
  the status, which the loop tests after each pixel. A float is a value of any type
  \<open>'f\<close>; \<open>one\<close> is \<open>float(1)\<close>. An image is the list of its scanlines, a scanline the
  list of its \<open>4 * width\<close> floats.
\<close>

fun read_pixel :: "'f \<Rightarrow> bool \<Rightarrow> 'f list \<Rightarrow> ('f list \<times> 'f list) option" where
  "read_pixel one True (g # s) = Some ([g, g, g, one], s)"
| "read_pixel one False (r # g # b # s) = Some ([r, g, b, one], s)"
| "read_pixel one bw s = None"

fun read_line :: "'f \<Rightarrow> bool \<Rightarrow> nat \<Rightarrow> 'f list \<Rightarrow> ('f list \<times> 'f list) option" where
  "read_line one bw 0 s = Some ([], s)"
| "read_line one bw (Suc n) s =
     (case read_pixel one bw s of
        None \<Rightarrow> None
      | Some (px, s') \<Rightarrow>
          (case read_line one bw n s' of
             None \<Rightarrow> None
           | Some (line, s'') \<Rightarrow> Some (px @ line, s'')))"

function read_lines ::
  "'f \<Rightarrow> PFMHeader \<Rightarrow> nat \<Rightarrow> nat \<Rightarrow> nat \<Rightarrow> 'f list list \<Rightarrow> 'f list \<Rightarrow> 'f list list option" where
  "read_lines one hdr w h y img s =
     (if y < h then
        (case read_line one (m_bw hdr) w s of
           None \<Rightarrow> None
         | Some (line, s') \<Rightarrow>
             read_lines one hdr w h (Suc y)
               (img[(if m_ps hdr then y else h - y - 1) := line]) s')
      else Some img)"
  by pat_completeness auto
termination
  by (relation "measure (\<lambda>(one, hdr, w, h, y, img, s). h - y)") auto

declare read_lines.simps [simp del]

text \<open>
  PFMHandler::read: the bool, the image assigned to \<open>*image\<close>, the header. imageAlloc
  (util\_p.h) gives a null image (\<open>allocated\<close> is false) or one of the size of the
  header, whose pixels, \<open>garbage\<close> here, are all written by the loop.
\<close>

definition PFMHandler_read ::
  "qt_numbers \<Rightarrow> 'f \<Rightarrow> 'f \<Rightarrow> bool \<Rightarrow> (ByteOrder \<Rightarrow> string \<Rightarrow> 'f list) \<Rightarrow> PFMHeader \<Rightarrow> string
    \<Rightarrow> bool \<times> 'f list list option \<times> PFMHeader" where
  "PFMHandler_read qt one garbage allocated floats hd0 d =
     (let (ok, hdr, d') = PFMHeader_read qt hd0 d in
      if \<not> ok then (False, None, hdr)
      else if \<not> allocated then (False, None, hdr)
      else
        (let w = nat (m_width hdr); h = nat (m_height hdr) in
         case read_lines one hdr w h 0 (replicate h (replicate (4 * w) garbage))
                (floats (m_byteOrder hdr) d') of
           None \<Rightarrow> (False, None, hdr)
         | Some img \<Rightarrow> (True, Some img, hdr)))"

text \<open>
  The rows of the data stream, as the format has them: row \<open>y\<close> is the \<open>y\<close>-th group
  of \<open>width\<close> pixels, a pixel being three floats, or one float for a grayscale file.
  \<open>pixels\<close> gives each pixel its four floats in the image.
\<close>

fun pixels :: "'f \<Rightarrow> bool \<Rightarrow> 'f list \<Rightarrow> 'f list" where
  "pixels one True (g # s) = [g, g, g, one] @ pixels one True s"
| "pixels one False (r # g # b # s) = [r, g, b, one] @ pixels one False s"
| "pixels one bw s = []"

definition channels :: "bool \<Rightarrow> nat" where
  "channels bw = (if bw then 1 else 3)"

definition stream_row :: "'f \<Rightarrow> bool \<Rightarrow> nat \<Rightarrow> 'f list \<Rightarrow> nat \<Rightarrow> 'f list" where
  "stream_row one bw w s y =
     pixels one bw (take (channels bw * w) (drop (y * (channels bw * w)) s))"

section \<open>Frame delays: the rounding of the specification and the frames kept\<close>

text \<open>
  The value of a double of the model, and the integer nearest to \<open>x / u\<close>.
\<close>

definition val :: "double \<Rightarrow> real" where
  "val x = real (fst x) / real (snd x)"

definition rounds_to :: "real \<Rightarrow> real \<Rightarrow> nat \<Rightarrow> bool" where
  "rounds_to x u m =
     (\<bar>real m - x / u\<bar> \<le> 1 / 2
      \<and> (\<forall>z. real z \<le> x / u \<longrightarrow> z \<le> m)
      \<and> (\<forall>z. x / u \<le> real z \<longrightarrow> m \<le> z))"

text \<open>
  The delay as the specification words it: \<open>1000 * duration * tps_denominator /
  tps_numerator\<close> rounded to the nearest integer, halves upwards, and 0 when
  \<open>tps_numerator\<close> is 0. Unlike \<open>frame_delay\<close> it is exact.
\<close>

definition rounded_delay :: "JxlAnimationHeader \<Rightarrow> JxlFrameHeader \<Rightarrow> int" where
  "rounded_delay a f =
     (if tps_numerator a = 0 then 0
      else int ((2 * (1000 * duration f * tps_denominator a) + tps_numerator a)
                 div (2 * tps_numerator a)))"

text \<open>
  The frame headers that the counting loop reads: up to and including the first
  that is marked \<open>is_last\<close>.
\<close>

fun frames_visited :: "frame_event list \<Rightarrow> JxlFrameHeader list" where
  "frames_visited [] = []"
| "frames_visited (ev # evs) =
     (if is_last (fe_header ev) then [fe_header ev]
      else fe_header ev # frames_visited evs)"

text \<open>
  The range in which the double arithmetic of the delay is exact and the cast is
  defined: the product \<open>1000 * duration * tps_denominator\<close> is below \<open>2 ^ 52\<close>, as is
  every product of a 32-bit duration and a denominator of at most 1024, and the rounded
  delay is at most 2147483647, the largest int; and the decoder reports frames only,
  each with a readable header.
\<close>

definition delay_in_range :: "JxlAnimationHeader \<Rightarrow> JxlFrameHeader \<Rightarrow> bool" where
  "delay_in_range a f =
     (tps_numerator a < 2 ^ 32
      \<and> (0 < tps_numerator a \<and> 0 < tps_denominator a \<longrightarrow>
            1000 * duration f * tps_denominator a < 2 ^ 52
            \<and> rounded_delay a f \<le> 2147483647))"

definition frames_in_range :: "JxlAnimationHeader \<Rightarrow> frame_event list \<Rightarrow> bool" where
  "frames_in_range a evs =
     (\<forall>ev\<in>set evs. fe_status ev = JXL_DEC_FRAME \<and> fe_header_status ev = JXL_DEC_SUCCESS
        \<and> delay_in_range a (fe_header ev))"

text \<open>
  What a method that counts no frames does to the handler, and what holds of the
  frame delays between two calls.
\<close>

definition keeps_frames :: "'img QJpegXLHandler \<Rightarrow> 'img QJpegXLHandler \<Rightarrow> bool" where
  "keeps_frames h h' =
     (m_framedelays h' = m_framedelays h \<and> m_basicinfo h' = m_basicinfo h
      \<and> (m_parseState h' = m_parseState h \<or> m_parseState h' = ParseJpegXLError))"

definition frames_invariant :: "'img QJpegXLHandler \<Rightarrow> bool" where
  "frames_invariant h =
     (((m_parseState h = ParseJpegXLNotParsed \<or> m_parseState h = ParseJpegXLBasicInfoParsed)
        \<longrightarrow> m_framedelays h = [])
      \<and> ((m_parseState h = ParseJpegXLSuccess \<or> m_parseState h = ParseJpegXLFinished)
        \<longrightarrow> m_framedelays h \<noteq> []
          \<and> (\<not> have_animation (m_basicinfo h) \<longrightarrow> length (m_framedelays h) = 1)))"

section \<open>Concrete inputs\<close>

text \<open>
  A 64-bit build with Qt 6.8 and libjxl 0.11, a device that holds a bare codestream
  (it starts with FF 0A), a library in which every call succeeds, and the files that
  the examples below read.
\<close>

definition build64 :: build where
  "build64 =
     \<lparr>QT_POINTER_SIZE = 8, JXL_QT_AUTOTRANSFORM = True, QT_VERSION_6_8 = True,
      JXL_DECODE_BOXES_DISABLED = False, JPEGXL_VERSION_0_11 = True\<rparr>"

definition codestream_device :: QIODevice where
  "codestream_device =
     \<lparr>dev_bytes = [0xFF, 0x0A, 0, 0, 0, 0, 0, 0, 0, 0, 0, 0, 0, 0, 0, 0], dev_pos = 0\<rparr>"

definition signature_of :: "byte list \<Rightarrow> JxlSignature" where
  "signature_of bytes =
     (if length bytes < 2 then JXL_SIG_NOT_ENOUGH_BYTES
      else if take 2 bytes = [0xFF, 0x0A] then JXL_SIG_CODESTREAM
      else JXL_SIG_INVALID)"

definition info_of :: "nat \<Rightarrow> nat \<Rightarrow> bool \<Rightarrow> nat \<Rightarrow> nat \<Rightarrow> JxlBasicInfo" where
  "info_of w h anim num den =
     \<lparr>have_container = False, xsize = w, ysize = h, bits_per_sample = 8,
      exponent_bits_per_sample = 0, uses_original_profile = False,
      have_animation = anim, orientation = JXL_ORIENT_IDENTITY,
      num_color_channels = 3, num_extra_channels = 0, alpha_bits = 0,
      animation = \<lparr>tps_numerator = num, tps_denominator = den, num_loops = 0\<rparr>\<rparr>"

definition rewind_ok :: rewind_lib where
  "rewind_ok =
     \<lparr>rw_setParallelRunner = JXL_DEC_SUCCESS, rw_setInput = JXL_DEC_SUCCESS,
      rw_subscribe = JXL_DEC_SUCCESS, rw_process = JXL_DEC_COLOR_ENCODING\<rparr>"

definition frame_of :: "nat \<Rightarrow> bool \<Rightarrow> frame_event" where
  "frame_of ticks final =
     \<lparr>fe_status = JXL_DEC_FRAME, fe_header_status = JXL_DEC_SUCCESS,
      fe_header = \<lparr>duration = ticks, is_last = final\<rparr>\<rparr>"

definition lib_of :: "JxlBasicInfo \<Rightarrow> frame_event list \<Rightarrow> nat \<Rightarrow> nat lib" where
  "lib_of info frames img =
     \<lparr>JxlSignatureCheck = signature_of,
      l_ensureDecoder =
        \<lparr>ed_create = True, ed_idealThreadCount = 8, ed_runnerCreate = True,
         ed_setParallelRunner = JXL_DEC_SUCCESS, ed_setInput = JXL_DEC_SUCCESS,
         ed_subscribe = JXL_DEC_SUCCESS, ed_process = JXL_DEC_BASIC_INFO,
         ed_getBasicInfo = (JXL_DEC_SUCCESS, info)\<rparr>,
      l_countALLFrames =
        \<lparr>cf_process = JXL_DEC_COLOR_ENCODING, cf_frames = frames,
         cf_colorspace_valid = True, cf_colorspace_cmyk = False,
         cf_channel_info = (\<lambda>i. (JXL_DEC_ERROR, JXL_CHANNEL_UNKNOWN)),
         cf_container =
           \<lparr>dc_setInput = JXL_DEC_SUCCESS, dc_subscribe = JXL_DEC_SUCCESS, dc_events = []\<rparr>,
         cf_rewind = rewind_ok\<rparr>,
      l_pixels = Decoded img,
      l_rewind = rewind_ok\<rparr>"

definition fresh :: "nat QJpegXLHandler" where
  "fresh = new_handler codestream_device (info_of 0 0 False 0 0) 0"

text \<open>
  The handler once the basic info \<open>info\<close> is parsed, once a static picture is
  counted, and once its only frame is decoded.
\<close>

definition parsed :: "JxlBasicInfo \<Rightarrow> nat QJpegXLHandler" where
  "parsed info =
     fresh\<lparr>device := codestream_device\<lparr>dev_pos := 16\<rparr>,
           m_rawData := dev_bytes codestream_device,
           m_decoder := True, m_runner := True, m_basicinfo := info,
           m_parseState := ParseJpegXLBasicInfoParsed\<rparr>"

definition counted_static :: "JxlBasicInfo \<Rightarrow> nat QJpegXLHandler" where
  "counted_static info =
     (parsed info)\<lparr>m_framedelays := [0], m_currentimage_index := 0,
       m_next_image_delay := 0, m_parseState := ParseJpegXLSuccess\<rparr>"

definition decoded_static :: "JxlBasicInfo \<Rightarrow> nat \<Rightarrow> nat QJpegXLHandler" where
  "decoded_static info img =
     (counted_static info)\<lparr>m_current_image := img, m_previousimage_index := 0,
       m_parseState := ParseJpegXLFinished\<rparr>"

text \<open>A static picture of 4 by 2 pixels, and one of 32768 by 32768.\<close>

definition static_4x2 :: JxlBasicInfo where
  "static_4x2 = info_of 4 2 False 0 0"

definition oversized :: JxlBasicInfo where
  "oversized = info_of 32768 32768 False 0 0"

text \<open>
  Two boxes of 4 MiB raw size: the decoder asks for more output once and then
  completes the box; the decoder asks for more output for ever.
\<close>

definition box_4MiB :: extractBox_lib where
  "box_4MiB =
     \<lparr>eb_sizeRaw = (JXL_DEC_SUCCESS, 4194304), eb_setBoxBuffer = JXL_DEC_SUCCESS,
      eb_process = (\<lambda>i. if i = 0 then JXL_DEC_BOX_NEED_MORE_OUTPUT else JXL_DEC_BOX_COMPLETE),
      eb_setBoxBuffer_more = (\<lambda>i. JXL_DEC_SUCCESS), eb_unused = 0\<rparr>"

definition box_endless :: extractBox_lib where
  "box_endless =
     \<lparr>eb_sizeRaw = (JXL_DEC_SUCCESS, 4194304), eb_setBoxBuffer = JXL_DEC_SUCCESS,
      eb_process = (\<lambda>i. JXL_DEC_BOX_NEED_MORE_OUTPUT),
      eb_setBoxBuffer_more = (\<lambda>i. JXL_DEC_SUCCESS), eb_unused = 0\<rparr>"

text \<open>
  A box of 100 bytes raw size for which the decoder asks for more output once.
\<close>

definition box_100 :: extractBox_lib where
  "box_100 =
     \<lparr>eb_sizeRaw = (JXL_DEC_SUCCESS, 100), eb_setBoxBuffer = JXL_DEC_SUCCESS,
      eb_process = (\<lambda>i. if i = 0 then JXL_DEC_BOX_NEED_MORE_OUTPUT else JXL_DEC_BOX_COMPLETE),
      eb_setBoxBuffer_more = (\<lambda>i. JXL_DEC_SUCCESS), eb_unused = 0\<rparr>"

text \<open>
  Two PFM files of one column and two rows, with the header of GIMP and with that
  of Photoshop, what Qt parses of their numbers, and a stand-in for the decoding of
  the floats: one float for each byte of data.
\<close>

definition qt_example :: qt_numbers where
  "qt_example =
     \<lparr>toInt = (\<lambda>s. if takeWhile (\<lambda>c. c \<noteq> CHR 0x0A) s = ''1'' then Some 1
                  else if takeWhile (\<lambda>c. c \<noteq> CHR 0x0A) s = ''2'' then Some 2
                  else None),
      toDouble = (\<lambda>s. if takeWhile (\<lambda>c. c \<noteq> CHR 0x0A) s = ''-1.0'' then Some DoubleOther
                     else None)\<rparr>"

definition floats_example :: "ByteOrder \<Rightarrow> string \<Rightarrow> nat list" where
  "floats_example order cs = map of_char cs"

definition gimp_1x2 :: string where
  "gimp_1x2 = ''PF'' @ [CHR 0x0A] @ ''1 2'' @ [CHR 0x0A] @ ''-1.0'' @ [CHR 0x0A] @ ''abcdef''"

definition photoshop_1x2 :: string where
  "photoshop_1x2 =
     ''PF'' @ [CHR 0x0A] @ ''1'' @ [CHR 0x0A] @ ''2'' @ [CHR 0x0A] @ ''-1.0'' @ [CHR 0x0A]
       @ ''abcdef''"

text \<open>
  Tick rates (1000 ticks a second, 8388609 / 1048576 ticks a second, and a rate with
  numerator 0), three frames of 100, 200 and 300 ticks, and an animation of a
  single frame of 100 ticks, with the handler after \<open>nextImageDelay\<close> has counted it.
\<close>

definition milliseconds :: JxlAnimationHeader where
  "milliseconds = \<lparr>tps_numerator = 1000, tps_denominator = 1, num_loops = 0\<rparr>"

definition eight_ticks :: JxlAnimationHeader where
  "eight_ticks = \<lparr>tps_numerator = 8388609, tps_denominator = 1048576, num_loops = 0\<rparr>"

definition stopped_clock :: JxlAnimationHeader where
  "stopped_clock = \<lparr>tps_numerator = 0, tps_denominator = 1, num_loops = 0\<rparr>"

definition three_frames :: "frame_event list" where
  "three_frames = [frame_of 100 False, frame_of 200 False, frame_of 300 True]"

definition single_frame_animation :: JxlBasicInfo where
  "single_frame_animation = info_of 4 2 True 1000 1"

definition downgraded :: "nat QJpegXLHandler" where
  "downgraded =
     step build64
       (Call_nextImageDelay (lib_of single_frame_animation [frame_of 100 True] 0)) fresh"

text \<open>
  An animation of the three frames at 1000 ticks a second: the handler once the frames
  are counted; the handler that holds the image \<open>img\<close> of frame \<open>prev\<close> with the cursor at
  \<open>cur\<close>; the handler after the first frame is read and the host has gone back to
  frame 0; and the handler after all three frames are read and the host has gone back
  to frame 2.
\<close>

definition animation_4x2 :: JxlBasicInfo where
  "animation_4x2 = info_of 4 2 True 1000 1"

definition counted_animation :: "nat QJpegXLHandler" where
  "counted_animation =
     (parsed animation_4x2)\<lparr>m_framedelays := [100, 200, 300], m_currentimage_index := 0,
       m_next_image_delay := 100, m_parseState := ParseJpegXLSuccess\<rparr>"

definition playing :: "nat \<Rightarrow> int \<Rightarrow> int \<Rightarrow> ParseJpegXLState \<Rightarrow> nat QJpegXLHandler" where
  "playing img prev cur st =
     counted_animation\<lparr>m_current_image := img, m_next_image_delay := [100, 200, 300] ! nat prev,
       m_previousimage_index := prev, m_currentimage_index := cur, m_parseState := st\<rparr>"

definition replayed :: "nat QJpegXLHandler" where
  "replayed =
     step build64 (Call_jumpToImage (lib_of animation_4x2 three_frames 0) 0)
       (step build64 (Call_read (lib_of animation_4x2 three_frames 7)) fresh)"

definition replayed_last :: "nat QJpegXLHandler" where
  "replayed_last =
     step build64 (Call_jumpToImage (lib_of animation_4x2 three_frames 0) 2)
       (step build64 (Call_read (lib_of animation_4x2 three_frames 9))
          (step build64 (Call_read (lib_of animation_4x2 three_frames 8))
             (step build64 (Call_read (lib_of animation_4x2 three_frames 7)) fresh)))"

section \<open>Properties of the options\<close>

text \<open>
  C7. For every integer \<open>v\<close>, setting the Quality option to \<open>v\<close> leaves the stored
  quality in 0..100: a value above 100 is stored as 100, a negative value as 90, and
  a value in 0..100 as given. The clamp of write then changes nothing.
\<close>

theorem setOption_Quality_clamped:
  fixes h :: "'img QJpegXLHandler"
  shows "0 \<le> m_quality (setOption b Quality v h) \<and> m_quality (setOption b Quality v h) \<le> 100
    \<and> (100 < v \<longrightarrow> m_quality (setOption b Quality v h) = 100)
    \<and> (v < 0 \<longrightarrow> m_quality (setOption b Quality v h) = 90)
    \<and> (0 \<le> v \<and> v \<le> 100 \<longrightarrow> m_quality (setOption b Quality v h) = v)
    \<and> write_quality (m_quality (setOption b Quality v h)) = m_quality (setOption b Quality v h)"
  by (simp add: setOption_def write_quality_def)

theorem setOption_Quality_clamped_witness:
  "m_quality (setOption build64 Quality 250 fresh) = 100
   \<and> m_quality (setOption build64 Quality (- 3) fresh) = 90
   \<and> m_quality (setOption build64 Quality 42 fresh) = 42"
  using setOption_Quality_clamped [of build64 250 fresh]
    setOption_Quality_clamped [of build64 "- 3" fresh]
    setOption_Quality_clamped [of build64 42 fresh]
  by simp

text \<open>
  C6, as stated, fails for the value 0: setOption ignores it, so that a handler
  that holds the transformation 3 still holds 3 after the option is set to 0.
\<close>

theorem setOption_ImageTransformation_zero_not_stored:
  "m_transformations
     (setOption build64 ImageTransformation 0
        (setOption build64 ImageTransformation 3 fresh)) = 3"
  by (simp add: setOption_def build64_def)

lemma write_orientation_table:
  "0 \<le> t \<Longrightarrow> t \<le> 7 \<Longrightarrow> write_orientation t = orientation_of t"
proof -
  assume "0 \<le> t" "t \<le> 7"
  then have "t = 0 \<or> t = 1 \<or> t = 2 \<or> t = 3 \<or> t = 4 \<or> t = 5 \<or> t = 6 \<or> t = 7"
    by arith
  then show ?thesis
    by (auto simp: write_orientation_def orientation_of_def Transformation_defs)
qed

lemma int_0_7: "{0..7::int} = {0, 1, 2, 3, 4, 5, 6, 7}"
  by auto

lemma write_orientation_values:
  "write_orientation 0 = JXL_ORIENT_IDENTITY"
  "write_orientation 1 = JXL_ORIENT_FLIP_HORIZONTAL"
  "write_orientation 2 = JXL_ORIENT_FLIP_VERTICAL"
  "write_orientation 3 = JXL_ORIENT_ROTATE_180"
  "write_orientation 4 = JXL_ORIENT_ROTATE_90_CW"
  "write_orientation 5 = JXL_ORIENT_ANTI_TRANSPOSE"
  "write_orientation 6 = JXL_ORIENT_TRANSPOSE"
  "write_orientation 7 = JXL_ORIENT_ROTATE_90_CCW"
  by (simp_all add: write_orientation_def Transformation_defs)

lemma write_orientation_inj: "inj_on write_orientation {0..7}"
  unfolding int_0_7 by (simp add: write_orientation_values)

lemma write_orientation_onto: "write_orientation ` {0..7} = UNIV"
proof -
  have "x \<in> write_orientation ` {0, 1, 2, 3, 4, 5, 6, 7}" for x
    by (cases x) (simp_all add: write_orientation_values)
  then show ?thesis
    unfolding int_0_7 by blast
qed

text \<open>
  C6, amended. Under JXL\_QT\_AUTOTRANSFORM, for every integer \<open>v\<close> in 1..7, setting the
  ImageTransformation option to \<open>v\<close> stores \<open>v\<close> in the handler, and a write then
  emits the orientation code that belongs to \<open>v\<close>; setting it to 0 or to a value
  outside 0..7 leaves the stored transformation as it was. The values 0..7 are
  written as the eight codes, one each.
\<close>

theorem setOption_ImageTransformation:
  fixes h :: "'img QJpegXLHandler"
  assumes "JXL_QT_AUTOTRANSFORM b"
  shows "(1 \<le> v \<and> v \<le> 7 \<longrightarrow>
            m_transformations (setOption b ImageTransformation v h) = v
            \<and> write_orientation (m_transformations (setOption b ImageTransformation v h))
                = orientation_of v)
    \<and> (v \<le> 0 \<or> 8 \<le> v \<longrightarrow>
            m_transformations (setOption b ImageTransformation v h) = m_transformations h)
    \<and> inj_on write_orientation {0..7} \<and> write_orientation ` {0..7} = UNIV"
proof -
  have stored: "m_transformations (setOption b ImageTransformation v h) = v"
    if "1 \<le> v" "v \<le> 7"
    using that assms by (simp add: setOption_def)
  have kept: "m_transformations (setOption b ImageTransformation v h) = m_transformations h"
    if "v \<le> 0 \<or> 8 \<le> v"
    using that assms by (auto simp: setOption_def)
  show ?thesis
    using stored kept write_orientation_table [of v] write_orientation_inj
      write_orientation_onto
    by auto
qed

theorem setOption_ImageTransformation_witness:
  "JXL_QT_AUTOTRANSFORM build64
   \<and> m_transformations (setOption build64 ImageTransformation 6 fresh) = 6
   \<and> write_orientation (m_transformations (setOption build64 ImageTransformation 6 fresh))
       = JXL_ORIENT_TRANSPOSE
   \<and> m_transformations (setOption build64 ImageTransformation 9 fresh) = 0"
proof -
  have a: "JXL_QT_AUTOTRANSFORM build64"
    by (simp add: build64_def)
  have s6: "m_transformations (setOption build64 ImageTransformation 6 fresh) = 6"
    using setOption_ImageTransformation [OF a, of 6 fresh] by auto
  have w6: "write_orientation (m_transformations (setOption build64 ImageTransformation 6 fresh))
      = orientation_of 6"
    using setOption_ImageTransformation [OF a, of 6 fresh] by auto
  have o6: "orientation_of 6 = JXL_ORIENT_TRANSPOSE"
    by (simp add: orientation_of_def)
  have s9: "m_transformations (setOption build64 ImageTransformation 9 fresh)
      = m_transformations fresh"
    using setOption_ImageTransformation [OF a, of 9 fresh] by auto
  have f: "m_transformations fresh = 0"
    by (simp add: fresh_def new_handler_def TransformationNone_def)
  show ?thesis
    using a s6 w6 o6 s9 f by simp
qed

section \<open>Properties of the signature probe\<close>

text \<open>
  C8. For every device from which fewer than 12 bytes can be peeked (the empty input
  and an input of 8 bytes among them), canRead(device) returns false and leaves the
  device as it was, no byte consumed; canRead() of a handler that has not parsed yet
  is false on such a device as well.
\<close>

theorem canRead_device_short:
  assumes "length (fst (peek 32 d)) < 12"
  shows "canRead_device signature_check (Some d) = (False, Some d)
    \<and> (m_parseState h = ParseJpegXLNotParsed \<and> device h = d \<longrightarrow> \<not> canRead signature_check h)"
proof -
  have short: "length (dev_bytes d) - dev_pos d < 12"
    using assms by (simp add: peek_def)
  then have "canRead_device signature_check (Some d) = (False, Some d)"
    by (simp add: canRead_device_def peek_def)
  then show ?thesis
    by (simp add: canRead_def)
qed

theorem canRead_device_short_witness:
  "length (fst (peek 32 \<lparr>dev_bytes = [0, 0, 0, 0x0C, 0x4A, 0x58, 0x4C, 0x20], dev_pos = 0\<rparr>)) < 12
   \<and> canRead_device signature_of
        (Some \<lparr>dev_bytes = [0, 0, 0, 0x0C, 0x4A, 0x58, 0x4C, 0x20], dev_pos = 0\<rparr>)
      = (False, Some \<lparr>dev_bytes = [0, 0, 0, 0x0C, 0x4A, 0x58, 0x4C, 0x20], dev_pos = 0\<rparr>)
   \<and> length (fst (peek 32 \<lparr>dev_bytes = [], dev_pos = 0\<rparr>)) < 12
   \<and> canRead_device signature_of (Some \<lparr>dev_bytes = [], dev_pos = 0\<rparr>)
      = (False, Some \<lparr>dev_bytes = [], dev_pos = 0\<rparr>)"
proof -
  have a: "length (fst (peek 32
      \<lparr>dev_bytes = [0, 0, 0, 0x0C, 0x4A, 0x58, 0x4C, 0x20], dev_pos = 0\<rparr>)) < 12"
    by (simp add: peek_def)
  have b: "length (fst (peek 32 \<lparr>dev_bytes = [], dev_pos = 0\<rparr>)) < 12"
    by (simp add: peek_def)
  show ?thesis
    using a b canRead_device_short [OF a, of signature_of]
      canRead_device_short [OF b, of signature_of]
    by blast
qed

section \<open>Properties of reading and seeking\<close>

lemma ensureParsed_parsed:
  "m_parseState h = ParseJpegXLSuccess \<or> m_parseState h = ParseJpegXLFinished
    \<Longrightarrow> ensureParsed b l h = (True, h)"
  by (auto simp: ensureParsed_def)

lemma ensureALLCounted_counted:
  "m_parseState h = ParseJpegXLSuccess \<or> m_parseState h = ParseJpegXLFinished
    \<Longrightarrow> ensureALLCounted b l h = (True, h)"
  by (auto simp: ensureALLCounted_def ensureParsed_def)

lemma countALLFrames_Success:
  assumes a: "countALLFrames b l h = (True, h')"
  shows "m_parseState h' = ParseJpegXLSuccess"
proof -
  obtain ok1 h1 where 1: "count_frames (cf_frames (l_countALLFrames l)) h = (ok1, h1)"
    by force
  obtain ok2 h2 where 2: "detect_cmyk b (l_countALLFrames l) h1 = (ok2, h2)"
    by force
  obtain ok3 h3 where 3:
    "(if JXL_DECODE_BOXES_DISABLED b then (True, h2)
      else decodeContainer b (JxlSignatureCheck l) (cf_container (l_countALLFrames l)) h2)
     = (ok3, h3)"
    by force
  obtain ok4 h4 where 4: "rewind (cf_rewind (l_countALLFrames l)) h3 = (ok4, h4)"
    by force
  from a show ?thesis
    unfolding countALLFrames_def Let_def
    by (auto simp: 1 2 3 4 split: if_splits list.splits)
qed

lemma ensureALLCounted_state:
  assumes "ensureALLCounted b l h = (True, h')"
  shows "m_parseState h' = ParseJpegXLSuccess \<or> m_parseState h' = ParseJpegXLFinished"
  using assms countALLFrames_Success
  by (auto simp: ensureALLCounted_def Let_def split: prod.splits if_splits)

lemma rewind_image: "m_current_image (snd (rewind rw h)) = m_current_image h"
  by (simp add: rewind_def Let_def)

lemma rewind_ok_succeeds:
  "rewind rewind_ok h = (True, h\<lparr>m_currentimage_index := 0\<rparr>)"
  by (simp add: rewind_def rewind_ok_def Let_def)

lemma jumpToNextImage_counted:
  assumes "m_parseState h = ParseJpegXLSuccess \<or> m_parseState h = ParseJpegXLFinished"
  shows "jumpToNextImage b l h =
    (if int (length (m_framedelays h)) > 1 then
       (if m_currentimage_index h + 1 \<ge> int (length (m_framedelays h)) then
          (if fst (rewind (l_rewind l) (h\<lparr>m_currentimage_index := m_currentimage_index h + 1\<rparr>))
           then (True, (snd (rewind (l_rewind l)
                   (h\<lparr>m_currentimage_index := m_currentimage_index h + 1\<rparr>)))
                   \<lparr>m_parseState := ParseJpegXLSuccess\<rparr>)
           else (False, snd (rewind (l_rewind l)
                   (h\<lparr>m_currentimage_index := m_currentimage_index h + 1\<rparr>))))
        else (True, h\<lparr>m_currentimage_index := m_currentimage_index h + 1,
                        m_parseState := ParseJpegXLSuccess\<rparr>))
     else (True, h\<lparr>m_parseState := ParseJpegXLSuccess\<rparr>))"
  using assms
  by (simp add: jumpToNextImage_def ensureALLCounted_counted Let_def split: prod.splits)

lemma jumpToNextImage_image:
  assumes "m_parseState h = ParseJpegXLSuccess \<or> m_parseState h = ParseJpegXLFinished"
  shows "m_current_image (snd (jumpToNextImage b l h)) = m_current_image h"
  by (simp add: jumpToNextImage_counted [OF assms] rewind_image)

lemma ensureDecoder_pixels: "ensureDecoder b (l\<lparr>l_pixels := p\<rparr>) h = ensureDecoder b l h"
  by (simp add: ensureDecoder_def Let_def cong: if_cong)

lemma countALLFrames_pixels: "countALLFrames b (l\<lparr>l_pixels := p\<rparr>) h = countALLFrames b l h"
  by (simp add: countALLFrames_def Let_def cong: if_cong)

lemma ensureALLCounted_pixels:
  "ensureALLCounted b (l\<lparr>l_pixels := p\<rparr>) h = ensureALLCounted b l h"
  by (simp add: ensureALLCounted_def ensureParsed_def ensureDecoder_pixels countALLFrames_pixels
      cong: if_cong)

lemma jumpToNextImage_pixels:
  "jumpToNextImage b (l\<lparr>l_pixels := p\<rparr>) h = jumpToNextImage b l h"
  by (simp add: jumpToNextImage_def ensureALLCounted_pixels Let_def cong: if_cong)

lemma read_cached_path:
  assumes "m_parseState h = ParseJpegXLSuccess \<or> m_parseState h = ParseJpegXLFinished"
    and "m_currentimage_index h = m_previousimage_index h"
  shows "read b l h =
    (fst (jumpToNextImage b l h), Some (m_current_image h), snd (jumpToNextImage b l h))"
  using assms
  by (simp add: read_def ensureALLCounted_counted split: prod.splits)

lemma decode_one_frame_image:
  "decode_one_frame l h = (True, h') \<Longrightarrow>
     (m_parseState h' = ParseJpegXLSuccess \<or> m_parseState h' = ParseJpegXLFinished)
     \<and> l_pixels l = Decoded (m_current_image h')"
  by (auto simp: decode_one_frame_def Let_def rewind_def
      split: frame_pixels.splits option.splits if_splits prod.splits)

lemma read_success:
  assumes "read b l h = (True, Some img, h')"
  shows "(m_parseState h' = ParseJpegXLSuccess \<or> m_parseState h' = ParseJpegXLFinished)
     \<and> m_current_image h' = img"
proof -
  obtain h1 where c: "ensureALLCounted b l h = (True, h1)"
    using assms by (auto simp: read_def split: prod.splits if_splits)
  note st = ensureALLCounted_state [OF c]
  show ?thesis
  proof (cases "m_currentimage_index h1 = m_previousimage_index h1")
    case True
    with assms c have j: "jumpToNextImage b l h1 = (True, h')" and i: "img = m_current_image h1"
      by (auto simp: read_def split: prod.splits)
    have "m_parseState h' = ParseJpegXLSuccess"
      using j by (auto simp: jumpToNextImage_counted [OF st] split: if_splits)
    moreover have "m_current_image h' = m_current_image h1"
      using jumpToNextImage_image [OF st, of b l] j by simp
    ultimately show ?thesis using i by simp
  next
    case False
    with assms c have d: "decode_one_frame l h1 = (True, h')" and i: "img = m_current_image h'"
      by (auto simp: read_def split: prod.splits if_splits)
    show ?thesis using decode_one_frame_image [OF d] i by simp
  qed
qed

text \<open>The concrete inputs, run.\<close>

lemma ensureDecoder_fresh:
  assumes "0 < xsize info" "xsize info \<le> 262144" "0 < ysize info" "ysize info \<le> 262144"
  shows "ensureDecoder build64 (lib_of info frames img) fresh = (True, parsed info)"
  using assms
  by (simp add: ensureDecoder_def fresh_def new_handler_def lib_of_def readAll_def
      codestream_device_def signature_of_def build64_def MAX_IMAGE_WIDTH_def
      MAX_IMAGE_HEIGHT_def FEATURE_LEVEL_5_WIDTH_def FEATURE_LEVEL_5_HEIGHT_def parsed_def)

lemma ensureParsed_fresh:
  assumes "0 < xsize info" "xsize info \<le> 262144" "0 < ysize info" "ysize info \<le> 262144"
  shows "ensureParsed build64 (lib_of info frames img) fresh = (True, parsed info)"
  using ensureDecoder_fresh [OF assms]
  by (simp add: ensureParsed_def fresh_def new_handler_def)

lemma countALLFrames_static:
  assumes "\<not> have_animation info" "\<not> uses_original_profile info" "\<not> have_container info"
  shows "countALLFrames build64 (lib_of info frames img) (parsed info) =
    (True, (parsed info)\<lparr>m_framedelays := [0], m_currentimage_index := 0,
       m_next_image_delay := 0, m_parseState := ParseJpegXLSuccess\<rparr>)"
  using assms
  by (simp add: countALLFrames_def count_frames_def detect_cmyk_def decodeContainer_def
      rewind_def rewind_ok_def lib_of_def parsed_def build64_def fresh_def new_handler_def)

lemma ensureALLCounted_static:
  assumes "0 < xsize info" "xsize info \<le> 262144" "0 < ysize info" "ysize info \<le> 262144"
    and "\<not> have_animation info" "\<not> uses_original_profile info" "\<not> have_container info"
  shows "ensureALLCounted build64 (lib_of info frames img) fresh = (True, counted_static info)"
proof -
  have p: "ensureParsed build64 (lib_of info frames img) fresh = (True, parsed info)"
    using assms by (intro ensureParsed_fresh)
  have c: "countALLFrames build64 (lib_of info frames img) (parsed info)
      = (True, counted_static info)"
    unfolding counted_static_def using assms by (intro countALLFrames_static)
  show ?thesis
    by (simp add: ensureALLCounted_def p c) (simp add: parsed_def)
qed

lemma read_static:
  assumes "0 < xsize info" "xsize info \<le> 262144" "0 < ysize info" "ysize info \<le> 262144"
    and "\<not> have_animation info" "\<not> uses_original_profile info" "\<not> have_container info"
  shows "read build64 (lib_of info frames img) fresh = (True, Some img, decoded_static info img)"
proof -
  have d: "decode_one_frame (lib_of info frames img) (counted_static info)
      = (True, decoded_static info img)"
    by (simp add: decode_one_frame_def lib_of_def counted_static_def decoded_static_def)
  show ?thesis
    by (simp add: read_def ensureALLCounted_static [OF assms] d)
      (simp add: counted_static_def parsed_def fresh_def new_handler_def decoded_static_def)
qed

lemma read_static_4x2:
  "read build64 (lib_of static_4x2 [] img) fresh = (True, Some img, decoded_static static_4x2 img)"
  by (rule read_static) (simp_all add: static_4x2_def info_of_def)

lemma rewind_cursor:
  "m_currentimage_index (snd (rewind rw h)) = 0"
  "m_previousimage_index (snd (rewind rw h)) = m_previousimage_index h"
  "m_framedelays (snd (rewind rw h)) = m_framedelays h"
  by (simp_all add: rewind_def Let_def)

lemma jumpToNextImage_cursor:
  assumes st: "m_parseState h = ParseJpegXLSuccess \<or> m_parseState h = ParseJpegXLFinished"
  shows "m_currentimage_index (snd (jumpToNextImage b l h)) =
      (if 1 < length (m_framedelays h) then
         (if m_currentimage_index h + 1 < int (length (m_framedelays h))
          then m_currentimage_index h + 1 else 0)
       else m_currentimage_index h)"
    and "m_previousimage_index (snd (jumpToNextImage b l h)) = m_previousimage_index h"
    and "m_framedelays (snd (jumpToNextImage b l h)) = m_framedelays h"
    and "fst (jumpToNextImage b l h) \<Longrightarrow>
      m_parseState (snd (jumpToNextImage b l h)) = ParseJpegXLSuccess"
    and "length (m_framedelays h) \<le> 1
        \<or> m_currentimage_index h + 1 < int (length (m_framedelays h)) \<Longrightarrow>
      fst (jumpToNextImage b l h)"
  by (auto simp: jumpToNextImage_counted [OF st] rewind_cursor)

lemma cursor_mod:
  fixes i :: int
  assumes "0 \<le> i" "i < int n"
  shows "(if 1 < n then (if i + 1 < int n then i + 1 else 0) else i) = (i + 1) mod int n"
proof (cases "1 < n")
  case True
  show ?thesis
  proof (cases "i + 1 < int n")
    case True
    with assms show ?thesis by simp
  next
    case False
    with assms have "i + 1 = int n" by simp
    with \<open>1 < n\<close> show ?thesis by simp
  qed
next
  case False
  with assms have "n = 1" "i = 0" by simp_all
  then show ?thesis by simp
qed

lemma frame_delay_milliseconds:
  "frame_delay \<lparr>tps_numerator = 1000, tps_denominator = Suc 0, num_loops = 0\<rparr>
     \<lparr>duration = 100, is_last = z\<rparr> = Some 100"
  "frame_delay \<lparr>tps_numerator = 1000, tps_denominator = Suc 0, num_loops = 0\<rparr>
     \<lparr>duration = 200, is_last = z\<rparr> = Some 200"
  "frame_delay \<lparr>tps_numerator = 1000, tps_denominator = Suc 0, num_loops = 0\<rparr>
     \<lparr>duration = 300, is_last = z\<rparr> = Some 300"
  by (simp_all add: frame_delay_def double_add_def double_div_def double_mul_def
      double_of_uint32_def double_to_int_def fl_def binade_def bitlength.simps
      round_half_even_def Let_def)

lemma countALLFrames_animation:
  "countALLFrames build64 (lib_of animation_4x2 three_frames img) (parsed animation_4x2)
    = (True, counted_animation)"
  by (simp add: countALLFrames_def count_frames_def detect_cmyk_def decodeContainer_def
      rewind_def rewind_ok_def lib_of_def parsed_def build64_def fresh_def new_handler_def
      animation_4x2_def info_of_def three_frames_def frame_of_def frame_delay_milliseconds
      counted_animation_def)

lemma ensureALLCounted_animation:
  "ensureALLCounted build64 (lib_of animation_4x2 three_frames img) fresh
    = (True, counted_animation)"
proof -
  have p: "ensureParsed build64 (lib_of animation_4x2 three_frames img) fresh
      = (True, parsed animation_4x2)"
    by (rule ensureParsed_fresh) (simp_all add: animation_4x2_def info_of_def)
  have s: "m_parseState (parsed animation_4x2) = ParseJpegXLBasicInfoParsed"
    by (simp add: parsed_def)
  show ?thesis
    by (simp add: ensureALLCounted_def p s countALLFrames_animation)
qed

lemma playing_fields:
  "m_parseState (playing img prev cur st) = st"
  "m_currentimage_index (playing img prev cur st) = cur"
  "m_previousimage_index (playing img prev cur st) = prev"
  "m_current_image (playing img prev cur st) = img"
  "m_framedelays (playing img prev cur st) = [100, 200, 300]"
  by (simp_all add: playing_def counted_animation_def)

lemma read_first_frame:
  "read build64 (lib_of animation_4x2 three_frames img) fresh
    = (True, Some img, playing img 0 1 ParseJpegXLSuccess)"
proof -
  have d: "decode_one_frame (lib_of animation_4x2 three_frames img) counted_animation
      = (True, playing img 0 1 ParseJpegXLSuccess)"
    by (simp add: decode_one_frame_def lib_of_def counted_animation_def playing_def)
  have i: "m_currentimage_index counted_animation \<noteq> m_previousimage_index counted_animation"
    by (simp add: counted_animation_def parsed_def fresh_def new_handler_def)
  show ?thesis
    by (simp add: read_def ensureALLCounted_animation d i playing_fields)
qed

lemma read_next_frame:
  assumes "st = ParseJpegXLSuccess \<or> st = ParseJpegXLFinished" and "prev \<noteq> cur"
    and "0 \<le> cur" "cur < 2"
  shows "read build64 (lib_of animation_4x2 three_frames img) (playing img0 prev cur st)
    = (True, Some img, playing img cur (cur + 1) ParseJpegXLSuccess)"
proof -
  have c: "cur = 0 \<or> cur = 1" using assms by auto
  have d: "decode_one_frame (lib_of animation_4x2 three_frames img) (playing img0 prev cur st)
      = (True, playing img cur (cur + 1) ParseJpegXLSuccess)"
    using c by (auto simp: decode_one_frame_def lib_of_def counted_animation_def playing_def)
  have e: "ensureALLCounted build64 (lib_of animation_4x2 three_frames img)
      (playing img0 prev cur st) = (True, playing img0 prev cur st)"
    using assms(1) by (intro ensureALLCounted_counted) (simp add: playing_fields)
  show ?thesis
    using assms(2) by (simp add: read_def e d playing_fields)
qed

lemma read_last_frame:
  assumes "st = ParseJpegXLSuccess \<or> st = ParseJpegXLFinished" and "prev \<noteq> 2"
  shows "read build64 (lib_of animation_4x2 three_frames img) (playing img0 prev 2 st)
    = (True, Some img, playing img 2 0 ParseJpegXLFinished)"
proof -
  have d: "decode_one_frame (lib_of animation_4x2 three_frames img) (playing img0 prev 2 st)
      = (True, playing img 2 0 ParseJpegXLFinished)"
    by (simp add: decode_one_frame_def lib_of_def counted_animation_def playing_def
        rewind_ok_succeeds)
  have e: "ensureALLCounted build64 (lib_of animation_4x2 three_frames img)
      (playing img0 prev 2 st) = (True, playing img0 prev 2 st)"
    using assms(1) by (intro ensureALLCounted_counted) (simp add: playing_fields)
  show ?thesis
    using assms(2) by (simp add: read_def e d playing_fields)
qed

lemma jumpToImage_playing:
  assumes "st = ParseJpegXLSuccess \<or> st = ParseJpegXLFinished" and "0 \<le> n" "n < 3"
  shows "jumpToImage build64 (lib_of animation_4x2 three_frames img) n (playing img0 prev cur st)
    = (True, playing img0 prev n ParseJpegXLSuccess)"
proof -
  have e: "ensureALLCounted build64 (lib_of animation_4x2 three_frames img)
      (playing img0 prev cur st) = (True, playing img0 prev cur st)"
    using assms(1) by (intro ensureALLCounted_counted) (simp add: playing_fields)
  have r: "l_rewind (lib_of animation_4x2 three_frames img) = rewind_ok"
    by (simp add: lib_of_def)
  show ?thesis
    using assms(2,3)
    by (simp add: jumpToImage_def e r rewind_ok_succeeds playing_fields)
      (auto simp: playing_def counted_animation_def)
qed

lemma replayed_eq: "replayed = playing 7 0 0 ParseJpegXLSuccess"
  by (simp add: replayed_def read_first_frame jumpToImage_playing)

lemma replayed_last_eq: "replayed_last = playing 9 2 2 ParseJpegXLSuccess"
  by (simp add: replayed_last_def read_first_frame read_next_frame read_last_frame
      jumpToImage_playing)

text \<open>
  C1. Whenever \<open>previous_index\<close> equals \<open>current_index\<close> when read is called on a
  handler whose frames are counted, read hands out the cached \<open>current_image\<close>,
  returns what jumpToNextImage returns and leaves the handler as jumpToNextImage
  does, with the cached image unchanged; the answer of the decoder for the pixels
  plays no part, so nothing is decoded. The cursor advances: with more than one frame
  \<open>current_index\<close> becomes \<open>current_index + 1\<close>, or 0 (by rewind) when that reaches the
  number of frames, and with a single frame it stays, which for a cursor within the
  frames is \<open>(current_index + 1) mod\<close> the number of frames; \<open>previous_index\<close> and the
  frame delays are unchanged; read returns true unless the rewind fails, and then the
  state is Success. A second read after a successful read, with the two indices
  equal, therefore hands out the image of the first.
\<close>

theorem read_returns_cached_image:
  fixes h h0 :: "'img QJpegXLHandler"
  shows "((m_parseState h = ParseJpegXLSuccess \<or> m_parseState h = ParseJpegXLFinished)
          \<and> m_currentimage_index h = m_previousimage_index h \<longrightarrow>
            read b l h = (fst (jumpToNextImage b l h), Some (m_current_image h),
                          snd (jumpToNextImage b l h))
            \<and> m_current_image (snd (snd (read b l h))) = m_current_image h
            \<and> (\<forall>p. read b (l\<lparr>l_pixels := p\<rparr>) h = read b l h)
            \<and> m_currentimage_index (snd (snd (read b l h))) =
                (if 1 < length (m_framedelays h) then
                   (if m_currentimage_index h + 1 < int (length (m_framedelays h))
                    then m_currentimage_index h + 1 else 0)
                 else m_currentimage_index h)
            \<and> (0 \<le> m_currentimage_index h
                  \<and> m_currentimage_index h < int (length (m_framedelays h)) \<longrightarrow>
                m_currentimage_index (snd (snd (read b l h)))
                  = (m_currentimage_index h + 1) mod int (length (m_framedelays h)))
            \<and> m_previousimage_index (snd (snd (read b l h))) = m_previousimage_index h
            \<and> m_framedelays (snd (snd (read b l h))) = m_framedelays h
            \<and> (fst (read b l h) \<longrightarrow>
                m_parseState (snd (snd (read b l h))) = ParseJpegXLSuccess)
            \<and> (length (m_framedelays h) \<le> 1
                  \<or> m_currentimage_index h + 1 < int (length (m_framedelays h)) \<longrightarrow>
                fst (read b l h)))
    \<and> (read b l0 h0 = (True, Some img, h)
          \<and> m_currentimage_index h = m_previousimage_index h \<longrightarrow>
            fst (snd (read b l h)) = Some img
            \<and> m_current_image (snd (snd (read b l h))) = img)"
proof -
  have first: "read b l h = (fst (jumpToNextImage b l h), Some (m_current_image h),
                          snd (jumpToNextImage b l h))
            \<and> m_current_image (snd (snd (read b l h))) = m_current_image h
            \<and> (\<forall>p. read b (l\<lparr>l_pixels := p\<rparr>) h = read b l h)"
    if st: "m_parseState h = ParseJpegXLSuccess \<or> m_parseState h = ParseJpegXLFinished"
      and idx: "m_currentimage_index h = m_previousimage_index h"
    for l :: "'img lib"
  proof -
    have r: "read b l' h = (fst (jumpToNextImage b l' h), Some (m_current_image h),
                          snd (jumpToNextImage b l' h))" for l' :: "'img lib"
      by (rule read_cached_path [OF st idx])
    have "read b (l\<lparr>l_pixels := p\<rparr>) h = read b l h" for p
      by (simp add: r jumpToNextImage_pixels)
    then show ?thesis
      using r [of l] jumpToNextImage_image [OF st, of b l] by simp
  qed
  have cursor: "m_currentimage_index (snd (snd (read b l h))) =
                (if 1 < length (m_framedelays h) then
                   (if m_currentimage_index h + 1 < int (length (m_framedelays h))
                    then m_currentimage_index h + 1 else 0)
                 else m_currentimage_index h)
            \<and> (0 \<le> m_currentimage_index h
                  \<and> m_currentimage_index h < int (length (m_framedelays h)) \<longrightarrow>
                m_currentimage_index (snd (snd (read b l h)))
                  = (m_currentimage_index h + 1) mod int (length (m_framedelays h)))
            \<and> m_previousimage_index (snd (snd (read b l h))) = m_previousimage_index h
            \<and> m_framedelays (snd (snd (read b l h))) = m_framedelays h
            \<and> (fst (read b l h) \<longrightarrow>
                m_parseState (snd (snd (read b l h))) = ParseJpegXLSuccess)
            \<and> (length (m_framedelays h) \<le> 1
                  \<or> m_currentimage_index h + 1 < int (length (m_framedelays h)) \<longrightarrow>
                fst (read b l h))"
    if st: "m_parseState h = ParseJpegXLSuccess \<or> m_parseState h = ParseJpegXLFinished"
      and idx: "m_currentimage_index h = m_previousimage_index h"
  proof -
    have r: "snd (snd (read b l h)) = snd (jumpToNextImage b l h)"
      "fst (read b l h) = fst (jumpToNextImage b l h)"
      by (simp_all add: read_cached_path [OF st idx])
    note c = jumpToNextImage_cursor [OF st, of b l]
    have 1: "m_currentimage_index (snd (snd (read b l h))) =
                (if 1 < length (m_framedelays h) then
                   (if m_currentimage_index h + 1 < int (length (m_framedelays h))
                    then m_currentimage_index h + 1 else 0)
                 else m_currentimage_index h)"
      unfolding r by (rule c(1))
    have 2: "m_currentimage_index (snd (snd (read b l h)))
                  = (m_currentimage_index h + 1) mod int (length (m_framedelays h))"
      if "0 \<le> m_currentimage_index h
                  \<and> m_currentimage_index h < int (length (m_framedelays h))"
      unfolding 1 using that by (intro cursor_mod) simp_all
    have 3: "m_previousimage_index (snd (snd (read b l h))) = m_previousimage_index h"
      unfolding r by (rule c(2))
    have 4: "m_framedelays (snd (snd (read b l h))) = m_framedelays h"
      unfolding r by (rule c(3))
    have 5: "m_parseState (snd (snd (read b l h))) = ParseJpegXLSuccess" if "fst (read b l h)"
      using that unfolding r by (rule c(4))
    have 6: "fst (read b l h)"
      if "length (m_framedelays h) \<le> 1
                  \<or> m_currentimage_index h + 1 < int (length (m_framedelays h))"
      using that unfolding r by (rule c(5))
    from 1 2 3 4 5 6 show ?thesis
      by blast
  qed
  have second: "fst (snd (read b l h)) = Some img
            \<and> m_current_image (snd (snd (read b l h))) = img"
    if r0: "read b l0 h0 = (True, Some img, h)"
      and idx: "m_currentimage_index h = m_previousimage_index h"
  proof -
    from read_success [OF r0]
    have st: "m_parseState h = ParseJpegXLSuccess \<or> m_parseState h = ParseJpegXLFinished"
      and im: "m_current_image h = img"
      by simp_all
    show ?thesis
      using first [OF st idx, of l] im by auto
  qed
  show ?thesis
    using first cursor second by blast
qed

theorem read_returns_cached_image_witness:
  "m_parseState replayed = ParseJpegXLSuccess
   \<and> m_currentimage_index replayed = 0 \<and> m_previousimage_index replayed = 0
   \<and> length (m_framedelays replayed) = 3
   \<and> fst (read build64 (lib_of animation_4x2 three_frames 5) replayed)
   \<and> fst (snd (read build64 (lib_of animation_4x2 three_frames 5) replayed)) = Some 7
   \<and> m_currentimage_index (snd (snd (read build64 (lib_of animation_4x2 three_frames 5)
         replayed))) = 1
   \<and> m_current_image (snd (snd (read build64 (lib_of animation_4x2 three_frames 5)
         replayed))) = 7
   \<and> m_parseState replayed_last = ParseJpegXLSuccess
   \<and> m_currentimage_index replayed_last = 2 \<and> m_previousimage_index replayed_last = 2
   \<and> length (m_framedelays replayed_last) = 3
   \<and> fst (snd (read build64 (lib_of animation_4x2 three_frames 5) replayed_last)) = Some 9
   \<and> m_currentimage_index (snd (snd (read build64 (lib_of animation_4x2 three_frames 5)
         replayed_last))) = 0
   \<and> read build64 (lib_of static_4x2 [] 7) fresh = (True, Some 7, decoded_static static_4x2 7)
   \<and> m_currentimage_index (decoded_static static_4x2 7)
       = m_previousimage_index (decoded_static static_4x2 7)
   \<and> fst (snd (read build64 (lib_of static_4x2 [] 9) (decoded_static static_4x2 7))) = Some 7
   \<and> m_current_image (snd (snd (read build64 (lib_of static_4x2 [] 9)
         (decoded_static static_4x2 7)))) = 7"
proof -
  have a: "m_parseState replayed = ParseJpegXLSuccess"
    "m_currentimage_index replayed = 0" "m_previousimage_index replayed = 0"
    "length (m_framedelays replayed) = 3" "m_current_image replayed = 7"
    by (simp_all add: replayed_eq playing_fields)
  have z: "m_parseState replayed_last = ParseJpegXLSuccess"
    "m_currentimage_index replayed_last = 2" "m_previousimage_index replayed_last = 2"
    "length (m_framedelays replayed_last) = 3" "m_current_image replayed_last = 9"
    by (simp_all add: replayed_last_eq playing_fields)
  have 1: "fst (read build64 (lib_of animation_4x2 three_frames 5) replayed)
    \<and> fst (snd (read build64 (lib_of animation_4x2 three_frames 5) replayed)) = Some 7
    \<and> m_currentimage_index (snd (snd (read build64 (lib_of animation_4x2 three_frames 5)
         replayed))) = 1
    \<and> m_current_image (snd (snd (read build64 (lib_of animation_4x2 three_frames 5)
         replayed))) = 7"
  proof -
    have c: "(m_parseState replayed = ParseJpegXLSuccess
          \<or> m_parseState replayed = ParseJpegXLFinished)
        \<and> m_currentimage_index replayed = m_previousimage_index replayed"
      using a by simp
    note t = read_returns_cached_image [of replayed build64
        "lib_of animation_4x2 three_frames 5", THEN conjunct1, THEN mp, OF c]
    from t [THEN conjunct1] a
    have "fst (snd (read build64 (lib_of animation_4x2 three_frames 5) replayed)) = Some 7"
      by simp
    with t [THEN conjunct2] a show ?thesis
      by simp
  qed
  have 2: "fst (snd (read build64 (lib_of animation_4x2 three_frames 5) replayed_last)) = Some 9
    \<and> m_currentimage_index (snd (snd (read build64 (lib_of animation_4x2 three_frames 5)
         replayed_last))) = 0"
  proof -
    have c: "(m_parseState replayed_last = ParseJpegXLSuccess
          \<or> m_parseState replayed_last = ParseJpegXLFinished)
        \<and> m_currentimage_index replayed_last = m_previousimage_index replayed_last"
      using z by simp
    note t = read_returns_cached_image [of replayed_last build64
        "lib_of animation_4x2 three_frames 5", THEN conjunct1, THEN mp, OF c]
    from t [THEN conjunct1] z
    have "fst (snd (read build64 (lib_of animation_4x2 three_frames 5) replayed_last)) = Some 9"
      by simp
    with t [THEN conjunct2] z show ?thesis
      by simp
  qed
  have st: "m_parseState (decoded_static static_4x2 7) = ParseJpegXLFinished"
    by (simp add: decoded_static_def)
  have idx: "m_currentimage_index (decoded_static static_4x2 7)
       = m_previousimage_index (decoded_static static_4x2 7)"
    by (simp add: decoded_static_def counted_static_def)
  have 3: "fst (snd (read build64 (lib_of static_4x2 [] 9) (decoded_static static_4x2 7))) = Some 7
   \<and> m_current_image (snd (snd (read build64 (lib_of static_4x2 [] 9)
         (decoded_static static_4x2 7)))) = 7"
    using read_returns_cached_image [of "decoded_static static_4x2 7" build64
        "lib_of static_4x2 [] 9" "lib_of static_4x2 [] 7" fresh 7, THEN conjunct2]
      read_static_4x2 [of 7] idx
    by auto
  show ?thesis
    using a z 1 2 3 read_static_4x2 [of 7] idx by simp
qed

lemma decode_one_frame_last:
  assumes "decode_one_frame l h = (True, h')"
    and "int (length (m_framedelays h)) \<le> m_currentimage_index h + 1"
  shows "m_parseState h' = ParseJpegXLFinished"
  using assms
  by (auto simp: decode_one_frame_def Let_def
      split: frame_pixels.splits option.splits if_splits prod.splits)

text \<open>
  C10. Once the parse state is Finished, canRead() returns false, although
  jumpToNextImage and read still succeed and set the state back to Success: they do
  whenever the library lets the decoder rewind (or there is a single frame, when no
  rewind is needed), read on the cached image.
\<close>

theorem canRead_false_when_Finished:
  fixes h :: "'img QJpegXLHandler"
  assumes fin: "m_parseState h = ParseJpegXLFinished"
  shows "\<not> canRead signature_check h
    \<and> (l_rewind l = rewind_ok \<or> length (m_framedelays h) \<le> 1 \<longrightarrow>
          fst (jumpToNextImage b l h)
          \<and> m_parseState (snd (jumpToNextImage b l h)) = ParseJpegXLSuccess)
    \<and> ((l_rewind l = rewind_ok \<or> length (m_framedelays h) \<le> 1)
          \<and> m_currentimage_index h = m_previousimage_index h \<longrightarrow>
          fst (read b l h)
          \<and> m_parseState (snd (snd (read b l h))) = ParseJpegXLSuccess)"
proof -
  have st: "m_parseState h = ParseJpegXLSuccess \<or> m_parseState h = ParseJpegXLFinished"
    using fin by simp
  have no: "\<not> canRead signature_check h"
    using fin by (simp add: canRead_def)
  have jump: "fst (jumpToNextImage b l h)
      \<and> m_parseState (snd (jumpToNextImage b l h)) = ParseJpegXLSuccess"
    if "l_rewind l = rewind_ok \<or> length (m_framedelays h) \<le> 1"
    using that by (auto simp: jumpToNextImage_counted [OF st] rewind_ok_succeeds)
  have rd: "fst (read b l h) \<and> m_parseState (snd (snd (read b l h))) = ParseJpegXLSuccess"
    if "l_rewind l = rewind_ok \<or> length (m_framedelays h) \<le> 1"
      and idx: "m_currentimage_index h = m_previousimage_index h"
    using jump [OF that(1)] by (simp add: read_cached_path [OF st idx])
  show ?thesis
    using no jump rd by blast
qed

theorem canRead_false_when_Finished_witness:
  "m_parseState (decoded_static static_4x2 7) = ParseJpegXLFinished
   \<and> \<not> canRead signature_of (decoded_static static_4x2 7)
   \<and> fst (jumpToNextImage build64 (lib_of static_4x2 [] 9) (decoded_static static_4x2 7))
   \<and> m_parseState (snd (jumpToNextImage build64 (lib_of static_4x2 [] 9)
        (decoded_static static_4x2 7))) = ParseJpegXLSuccess
   \<and> fst (read build64 (lib_of static_4x2 [] 9) (decoded_static static_4x2 7))
   \<and> m_parseState (snd (snd (read build64 (lib_of static_4x2 [] 9)
        (decoded_static static_4x2 7)))) = ParseJpegXLSuccess"
proof -
  have st: "m_parseState (decoded_static static_4x2 7) = ParseJpegXLFinished"
    by (simp add: decoded_static_def)
  have idx: "m_currentimage_index (decoded_static static_4x2 7)
       = m_previousimage_index (decoded_static static_4x2 7)"
    by (simp add: decoded_static_def counted_static_def)
  have rw: "l_rewind (lib_of static_4x2 [] 9) = rewind_ok"
    by (simp add: lib_of_def)
  show ?thesis
    using canRead_false_when_Finished [OF st, of signature_of "lib_of static_4x2 [] 9" build64]
      st idx rw
    by auto
qed

section \<open>Properties of parsing\<close>

text \<open>
  What ensureDecoder checks: a width or a height above the cap of the build makes
  ensureParsed fail with ParseJpegXLError, and read return false before any image is
  allocated.
\<close>

lemma ensureParsed_rejects_wide_or_tall:
  fixes h :: "'img QJpegXLHandler"
  assumes "m_parseState h = ParseJpegXLNotParsed" "\<not> m_decoder h"
    and "fst (readAll (device h)) \<noteq> []"
    and "xsize (snd (ed_getBasicInfo (l_ensureDecoder l))) > MAX_IMAGE_WIDTH b
       \<or> ysize (snd (ed_getBasicInfo (l_ensureDecoder l))) > MAX_IMAGE_HEIGHT b"
  shows "\<not> fst (ensureParsed b l h)
    \<and> m_parseState (snd (ensureParsed b l h)) = ParseJpegXLError
    \<and> read b l h = (False, None, snd (ensureParsed b l h))
    \<and> m_current_image (snd (ensureParsed b l h)) = m_current_image h"
proof -
  obtain data dev where ra: "readAll (device h) = (data, dev)"
    by force
  have e: "\<not> fst (ensureDecoder b l h)
      \<and> m_parseState (snd (ensureDecoder b l h)) = ParseJpegXLError
      \<and> m_current_image (snd (ensureDecoder b l h)) = m_current_image h"
    using assms by (simp add: ensureDecoder_def ra Let_def)
  obtain h1 where ed: "ensureDecoder b l h = (False, h1)"
    using e by (cases "ensureDecoder b l h") auto
  have ep: "ensureParsed b l h = (False, h1)"
    using assms(1) ed by (simp add: ensureParsed_def)
  have "read b l h = (False, None, h1)"
    by (simp add: read_def ensureALLCounted_def ep)
  then show ?thesis
    using e ed ep by simp
qed

text \<open>
  C4 says that an input whose pixel count is above the cap of \<open>2\<^sup>2\<^sup>8\<close> pixels is
  rejected by ensureParsed and that no image is allocated for it. On the 64-bit
  build, a picture of 32768 by 32768 pixels (\<open>2\<^sup>3\<^sup>0\<close> pixels) is parsed with success
  and the state BasicInfoParsed, and read goes on to decode the frame, which
  allocates the image: ensureDecoder compares the width and the height with their
  caps and never the pixel count with MAX\_IMAGE\_PIXELS, which only write does.
\<close>

theorem ensureParsed_accepts_oversized:
  "ensureParsed build64 (lib_of oversized [] 0) fresh = (True, parsed oversized)
   \<and> m_parseState (parsed oversized) = ParseJpegXLBasicInfoParsed
   \<and> xsize (m_basicinfo (parsed oversized)) * ysize (m_basicinfo (parsed oversized))
       > MAX_IMAGE_PIXELS build64
   \<and> read build64 (lib_of oversized [] 0) fresh = (True, Some 0, decoded_static oversized 0)"
proof -
  have p: "ensureParsed build64 (lib_of oversized [] 0) fresh = (True, parsed oversized)"
    by (rule ensureParsed_fresh) (simp_all add: oversized_def info_of_def)
  have r: "read build64 (lib_of oversized [] 0) fresh = (True, Some 0, decoded_static oversized 0)"
    by (rule read_static) (simp_all add: oversized_def info_of_def)
  have s: "m_parseState (parsed oversized) = ParseJpegXLBasicInfoParsed"
    by (simp add: parsed_def)
  have big: "xsize (m_basicinfo (parsed oversized)) * ysize (m_basicinfo (parsed oversized))
       > MAX_IMAGE_PIXELS build64"
    by (simp add: parsed_def oversized_def info_of_def MAX_IMAGE_PIXELS_def
        FEATURE_LEVEL_5_PIXELS_def)
  show ?thesis
    using p r s big by simp
qed

section \<open>Properties of the container boxes\<close>

text \<open>
  C5, as stated, fails: the size of the buffer is tested before the buffer grows, so
  a box of 4 MiB raw size for which the decoder asks for more output once is
  extracted with 4 MiB + 16 KiB of payload, which is more than 4 MiB, and the parse
  state is not Error. (The source calls the limit approximate.)
\<close>

theorem extractBox_accepts_more_than_4MiB:
  "extractBox build64 box_4MiB 0 5000000 fresh = (True, 4210688, fresh)
   \<and> (4210688 :: nat) > 4 * 1024 * 1024
   \<and> m_parseState fresh \<noteq> ParseJpegXLError"
  by (simp add: extractBox_def box_4MiB_def build64_def extractBox_loop.simps
      fresh_def new_handler_def)

lemma extractBox_loop_left:
  "extractBox_loop eb i sz = BoxLoopLeft st sz' \<Longrightarrow>
     \<exists>k. sz' = sz + 16384 * k
       \<and> (\<forall>j<k. eb_process eb (i + j) = JXL_DEC_BOX_NEED_MORE_OUTPUT
                 \<and> sz + 16384 * j \<le> 4194304)
       \<and> eb_process eb (i + k) = st \<and> st \<noteq> JXL_DEC_BOX_NEED_MORE_OUTPUT"
proof (induction eb i sz rule: extractBox_loop.induct)
  case (1 eb i sz)
  show ?case
  proof (cases "eb_process eb i = JXL_DEC_BOX_NEED_MORE_OUTPUT")
    case False
    with "1.prems" have "st = eb_process eb i" "sz' = sz"
      by (simp_all add: extractBox_loop.simps [of eb i sz])
    with False show ?thesis
      by (intro exI [of _ 0]) simp
  next
    case True
    with "1.prems" have small: "\<not> sz > 4194304"
      and ok: "\<not> eb_setBoxBuffer_more eb i \<noteq> JXL_DEC_SUCCESS"
      and rec: "extractBox_loop eb (Suc i) (sz + 16384) = BoxLoopLeft st sz'"
      by (auto simp: extractBox_loop.simps [of eb i sz] split: if_splits)
    from "1.IH" [OF True small ok rec] obtain k where
      k: "sz' = sz + 16384 + 16384 * k"
        "\<forall>j<k. eb_process eb (Suc i + j) = JXL_DEC_BOX_NEED_MORE_OUTPUT
                 \<and> sz + 16384 + 16384 * j \<le> 4194304"
        "eb_process eb (Suc i + k) = st" "st \<noteq> JXL_DEC_BOX_NEED_MORE_OUTPUT"
      by auto
    have "\<forall>j<Suc k. eb_process eb (i + j) = JXL_DEC_BOX_NEED_MORE_OUTPUT
                 \<and> sz + 16384 * j \<le> 4194304"
    proof (intro allI impI)
      fix j assume "j < Suc k"
      show "eb_process eb (i + j) = JXL_DEC_BOX_NEED_MORE_OUTPUT \<and> sz + 16384 * j \<le> 4194304"
      proof (cases j)
        case 0
        with True small show ?thesis by simp
      next
        case (Suc j')
        with \<open>j < Suc k\<close> k(2) show ?thesis by auto
      qed
    qed
    with k show ?thesis
      by (intro exI [of _ "Suc k"]) simp
  qed
qed

lemma extractBox_False_Error:
  assumes "JPEGXL_VERSION_0_11 b" "\<not> fst (extractBox b eb out0 container_size h)"
  shows "m_parseState (snd (snd (extractBox b eb out0 container_size h))) = ParseJpegXLError"
  using assms
  by (auto simp: extractBox_def Let_def split: if_splits box_loop.splits)

lemma extractBox_True:
  assumes v: "JPEGXL_VERSION_0_11 b" and t: "fst (extractBox b eb out0 container_size h)"
  shows "snd (eb_sizeRaw eb) \<le> container_size
    \<and> (\<exists>k. fst (snd (extractBox b eb out0 container_size h))
              = snd (eb_sizeRaw eb) + 16384 * k - eb_unused eb
          \<and> (\<forall>j<k. eb_process eb j = JXL_DEC_BOX_NEED_MORE_OUTPUT
                    \<and> snd (eb_sizeRaw eb) + 16384 * j \<le> 4194304)
          \<and> eb_process eb k = JXL_DEC_BOX_COMPLETE)
    \<and> snd (snd (extractBox b eb out0 container_size h)) = h"
proof -
  from v t obtain sz where
    fit: "snd (eb_sizeRaw eb) \<le> container_size"
    and loop: "extractBox_loop eb 0 (snd (eb_sizeRaw eb)) = BoxLoopLeft JXL_DEC_BOX_COMPLETE sz"
    and res: "extractBox b eb out0 container_size h = (True, sz - eb_unused eb, h)"
    by (auto simp: extractBox_def Let_def split: if_splits box_loop.splits)
  from extractBox_loop_left [OF loop] obtain k where
    "sz = snd (eb_sizeRaw eb) + 16384 * k"
    "\<forall>j<k. eb_process eb j = JXL_DEC_BOX_NEED_MORE_OUTPUT
         \<and> snd (eb_sizeRaw eb) + 16384 * j \<le> 4194304"
    "eb_process eb k = JXL_DEC_BOX_COMPLETE"
    by auto
  with fit res show ?thesis
    by auto
qed

lemma extractBox_loop_grows:
  assumes "\<forall>j<k. eb_process eb (i + j) = JXL_DEC_BOX_NEED_MORE_OUTPUT
                 \<and> sz + 16384 * j \<le> 4194304
                 \<and> eb_setBoxBuffer_more eb (i + j) = JXL_DEC_SUCCESS"
  shows "extractBox_loop eb i sz = extractBox_loop eb (i + k) (sz + 16384 * k)"
  using assms
proof (induction k arbitrary: i sz)
  case 0
  show ?case by simp
next
  case (Suc k)
  from Suc.prems have first: "eb_process eb i = JXL_DEC_BOX_NEED_MORE_OUTPUT"
    "sz \<le> 4194304" "eb_setBoxBuffer_more eb i = JXL_DEC_SUCCESS"
    by force+
  have rest: "\<forall>j<k. eb_process eb (Suc i + j) = JXL_DEC_BOX_NEED_MORE_OUTPUT
                 \<and> (sz + 16384) + 16384 * j \<le> 4194304
                 \<and> eb_setBoxBuffer_more eb (Suc i + j) = JXL_DEC_SUCCESS"
  proof (intro allI impI)
    fix j assume "j < k"
    then have "Suc j < Suc k" by simp
    with Suc.prems have "eb_process eb (i + Suc j) = JXL_DEC_BOX_NEED_MORE_OUTPUT
                 \<and> sz + 16384 * Suc j \<le> 4194304
                 \<and> eb_setBoxBuffer_more eb (i + Suc j) = JXL_DEC_SUCCESS"
      by blast
    then show "eb_process eb (Suc i + j) = JXL_DEC_BOX_NEED_MORE_OUTPUT
                 \<and> (sz + 16384) + 16384 * j \<le> 4194304
                 \<and> eb_setBoxBuffer_more eb (Suc i + j) = JXL_DEC_SUCCESS"
      by simp
  qed
  have "extractBox_loop eb i sz = extractBox_loop eb (Suc i) (sz + 16384)"
    using first by (simp add: extractBox_loop.simps [of eb i sz])
  also have "\<dots> = extractBox_loop eb (Suc i + k) ((sz + 16384) + 16384 * k)"
    using rest by (rule Suc.IH)
  finally show ?case by (simp add: add.assoc)
qed

lemma extractBox_grown:
  assumes v: "JPEGXL_VERSION_0_11 b"
    and raw: "fst (eb_sizeRaw eb) = JXL_DEC_SUCCESS" "snd (eb_sizeRaw eb) \<le> container_size"
    and buf: "eb_setBoxBuffer eb = JXL_DEC_SUCCESS"
    and more: "\<forall>j<k. eb_process eb j = JXL_DEC_BOX_NEED_MORE_OUTPUT
                 \<and> snd (eb_sizeRaw eb) + 16384 * j \<le> 4194304
                 \<and> eb_setBoxBuffer_more eb j = JXL_DEC_SUCCESS"
    and complete: "eb_process eb k = JXL_DEC_BOX_COMPLETE"
  shows "extractBox b eb out0 container_size h
    = (True, snd (eb_sizeRaw eb) + 16384 * k - eb_unused eb, h)"
proof -
  have "extractBox_loop eb 0 (snd (eb_sizeRaw eb))
      = extractBox_loop eb (0 + k) (snd (eb_sizeRaw eb) + 16384 * k)"
    using more by (intro extractBox_loop_grows) simp
  also have "\<dots> = BoxLoopLeft JXL_DEC_BOX_COMPLETE (snd (eb_sizeRaw eb) + 16384 * k)"
    using complete by (simp add: extractBox_loop.simps [of eb k])
  finally show ?thesis
    using v raw buf by (simp add: extractBox_def)
qed

text \<open>
  C5, amended. From libjxl 0.11.0 on, for every box: a raw size above the length of
  the container is rejected with ParseJpegXLError. The buffer starts at the raw size
  and grows by 16 KiB for each JXL\_DEC\_BOX\_NEED\_MORE\_OUTPUT that finds it at 4 MiB or
  less: when the decoder asks for more output \<open>n\<close> times, each time with the buffer at
  4 MiB or less, and then completes the box, extractBox returns true with the raw
  size plus \<open>n\<close> times 16 KiB, less the unused bytes, and leaves the handler as it is.
  Conversely an extraction that succeeds has grown the buffer in this way, so the
  payload extracted has at most max (raw size, 4 MiB + 16 KiB) bytes; and when the
  decoder still asks for more output with the buffer above 4 MiB, the box is rejected
  with ParseJpegXLError.
\<close>

theorem extractBox_buffer:
  fixes h :: "'img QJpegXLHandler"
  assumes v: "JPEGXL_VERSION_0_11 b"
  shows "(snd (eb_sizeRaw eb) > container_size \<longrightarrow>
            \<not> fst (extractBox b eb out0 container_size h)
            \<and> m_parseState (snd (snd (extractBox b eb out0 container_size h)))
                = ParseJpegXLError)
    \<and> (fst (eb_sizeRaw eb) = JXL_DEC_SUCCESS \<and> snd (eb_sizeRaw eb) \<le> container_size
          \<and> eb_setBoxBuffer eb = JXL_DEC_SUCCESS
          \<and> (\<forall>j<n. eb_process eb j = JXL_DEC_BOX_NEED_MORE_OUTPUT
                    \<and> snd (eb_sizeRaw eb) + 16384 * j \<le> 4194304
                    \<and> eb_setBoxBuffer_more eb j = JXL_DEC_SUCCESS)
          \<and> eb_process eb n = JXL_DEC_BOX_COMPLETE \<longrightarrow>
            extractBox b eb out0 container_size h
              = (True, snd (eb_sizeRaw eb) + 16384 * n - eb_unused eb, h))
    \<and> (fst (extractBox b eb out0 container_size h) \<longrightarrow>
          (\<exists>k. fst (snd (extractBox b eb out0 container_size h))
                  = snd (eb_sizeRaw eb) + 16384 * k - eb_unused eb
              \<and> (\<forall>j<k. eb_process eb j = JXL_DEC_BOX_NEED_MORE_OUTPUT
                        \<and> snd (eb_sizeRaw eb) + 16384 * j \<le> 4194304)
              \<and> eb_process eb k = JXL_DEC_BOX_COMPLETE)
          \<and> fst (snd (extractBox b eb out0 container_size h))
              \<le> max (snd (eb_sizeRaw eb)) (4194304 + 16384)
          \<and> snd (snd (extractBox b eb out0 container_size h)) = h)
    \<and> ((\<exists>k. (\<forall>j\<le>k. eb_process eb j = JXL_DEC_BOX_NEED_MORE_OUTPUT)
              \<and> snd (eb_sizeRaw eb) + 16384 * k > 4194304) \<longrightarrow>
            \<not> fst (extractBox b eb out0 container_size h)
            \<and> m_parseState (snd (snd (extractBox b eb out0 container_size h)))
                = ParseJpegXLError)"
proof -
  let ?r = "extractBox b eb out0 container_size h"
  let ?raw = "snd (eb_sizeRaw eb)"
  have big: "\<not> fst ?r" if "?raw > container_size"
    using extractBox_True [OF v, of eb out0 container_size h] that by auto
  have grows: "?r = (True, ?raw + 16384 * n - eb_unused eb, h)"
    if "fst (eb_sizeRaw eb) = JXL_DEC_SUCCESS \<and> ?raw \<le> container_size
          \<and> eb_setBoxBuffer eb = JXL_DEC_SUCCESS
          \<and> (\<forall>j<n. eb_process eb j = JXL_DEC_BOX_NEED_MORE_OUTPUT
                    \<and> ?raw + 16384 * j \<le> 4194304
                    \<and> eb_setBoxBuffer_more eb j = JXL_DEC_SUCCESS)
          \<and> eb_process eb n = JXL_DEC_BOX_COMPLETE"
    using that by (intro extractBox_grown [OF v]) simp_all
  have grown: "(\<exists>k. fst (snd ?r) = ?raw + 16384 * k - eb_unused eb
              \<and> (\<forall>j<k. eb_process eb j = JXL_DEC_BOX_NEED_MORE_OUTPUT
                        \<and> ?raw + 16384 * j \<le> 4194304)
              \<and> eb_process eb k = JXL_DEC_BOX_COMPLETE)
          \<and> fst (snd ?r) \<le> max ?raw (4194304 + 16384)
          \<and> snd (snd ?r) = h" if t: "fst ?r"
  proof -
    from extractBox_True [OF v t] obtain k where
      k: "fst (snd ?r) = ?raw + 16384 * k - eb_unused eb"
         "\<forall>j<k. eb_process eb j = JXL_DEC_BOX_NEED_MORE_OUTPUT \<and> ?raw + 16384 * j \<le> 4194304"
         "eb_process eb k = JXL_DEC_BOX_COMPLETE"
      and same: "snd (snd ?r) = h"
      by auto
    have "?raw + 16384 * k \<le> max ?raw (4194304 + 16384)"
    proof (cases k)
      case 0
      then show ?thesis by simp
    next
      case (Suc k')
      with k(2) have "?raw + 16384 * k' \<le> 4194304" by simp
      with Suc show ?thesis by simp
    qed
    with k same show ?thesis
      by (intro conjI exI [of _ k]) simp_all
  qed
  have endless: "\<not> fst ?r"
    if "\<exists>k. (\<forall>j\<le>k. eb_process eb j = JXL_DEC_BOX_NEED_MORE_OUTPUT)
              \<and> ?raw + 16384 * k > 4194304"
  proof
    assume t: "fst ?r"
    from that obtain k where
      more: "\<forall>j\<le>k. eb_process eb j = JXL_DEC_BOX_NEED_MORE_OUTPUT"
      and over: "?raw + 16384 * k > 4194304"
      by auto
    from grown [OF t] obtain k' where
      k': "\<forall>j<k'. eb_process eb j = JXL_DEC_BOX_NEED_MORE_OUTPUT \<and> ?raw + 16384 * j \<le> 4194304"
          "eb_process eb k' = JXL_DEC_BOX_COMPLETE"
      by auto
    have "k < k'"
    proof (rule ccontr)
      assume "\<not> k < k'"
      then have "k' \<le> k" by simp
      with more k'(2) show False by auto
    qed
    with k'(1) over show False by auto
  qed
  have err: "\<not> fst ?r \<Longrightarrow> m_parseState (snd (snd ?r)) = ParseJpegXLError"
    by (rule extractBox_False_Error [OF v])
  show ?thesis
  proof (intro conjI impI)
    assume a: "?raw > container_size"
    show "\<not> fst ?r" using a by (rule big)
    then show "m_parseState (snd (snd ?r)) = ParseJpegXLError" by (rule err)
  next
    assume "fst (eb_sizeRaw eb) = JXL_DEC_SUCCESS \<and> ?raw \<le> container_size
          \<and> eb_setBoxBuffer eb = JXL_DEC_SUCCESS
          \<and> (\<forall>j<n. eb_process eb j = JXL_DEC_BOX_NEED_MORE_OUTPUT
                    \<and> ?raw + 16384 * j \<le> 4194304
                    \<and> eb_setBoxBuffer_more eb j = JXL_DEC_SUCCESS)
          \<and> eb_process eb n = JXL_DEC_BOX_COMPLETE"
    then show "?r = (True, ?raw + 16384 * n - eb_unused eb, h)" by (rule grows)
  next
    assume t: "fst ?r"
    from grown [OF t] show "\<exists>k. fst (snd ?r) = ?raw + 16384 * k - eb_unused eb
              \<and> (\<forall>j<k. eb_process eb j = JXL_DEC_BOX_NEED_MORE_OUTPUT
                        \<and> ?raw + 16384 * j \<le> 4194304)
              \<and> eb_process eb k = JXL_DEC_BOX_COMPLETE"
      and "fst (snd ?r) \<le> max ?raw (4194304 + 16384)"
      and "snd (snd ?r) = h"
      by blast+
  next
    assume e: "\<exists>k. (\<forall>j\<le>k. eb_process eb j = JXL_DEC_BOX_NEED_MORE_OUTPUT)
              \<and> ?raw + 16384 * k > 4194304"
    show "\<not> fst ?r" using e by (rule endless)
    then show "m_parseState (snd (snd ?r)) = ParseJpegXLError" by (rule err)
  qed
qed

theorem extractBox_buffer_witness:
  "JPEGXL_VERSION_0_11 build64
   \<and> extractBox build64 box_100 0 5000000 fresh = (True, 16484, fresh)
   \<and> extractBox build64 box_4MiB 0 5000000 fresh = (True, 4210688, fresh)
   \<and> fst (extractBox build64 box_4MiB 0 5000000 fresh)
   \<and> fst (snd (extractBox build64 box_4MiB 0 5000000 fresh)) \<le> 4194304 + 16384
   \<and> \<not> fst (extractBox build64 box_4MiB 0 1000 fresh)
   \<and> \<not> fst (extractBox build64 box_endless 0 5000000 fresh)
   \<and> m_parseState (snd (snd (extractBox build64 box_endless 0 5000000 fresh)))
       = ParseJpegXLError"
proof -
  have v: "JPEGXL_VERSION_0_11 build64"
    by (simp add: build64_def)
  have raw: "snd (eb_sizeRaw box_4MiB) = 4194304" "snd (eb_sizeRaw box_endless) = 4194304"
    by (simp_all add: box_4MiB_def box_endless_def)
  have s: "fst (eb_sizeRaw box_100) = JXL_DEC_SUCCESS \<and> snd (eb_sizeRaw box_100) \<le> 5000000
          \<and> eb_setBoxBuffer box_100 = JXL_DEC_SUCCESS
          \<and> (\<forall>j<1. eb_process box_100 j = JXL_DEC_BOX_NEED_MORE_OUTPUT
                    \<and> snd (eb_sizeRaw box_100) + 16384 * j \<le> 4194304
                    \<and> eb_setBoxBuffer_more box_100 j = JXL_DEC_SUCCESS)
          \<and> eb_process box_100 1 = JXL_DEC_BOX_COMPLETE"
    by (simp add: box_100_def)
  have m: "fst (eb_sizeRaw box_4MiB) = JXL_DEC_SUCCESS \<and> snd (eb_sizeRaw box_4MiB) \<le> 5000000
          \<and> eb_setBoxBuffer box_4MiB = JXL_DEC_SUCCESS
          \<and> (\<forall>j<1. eb_process box_4MiB j = JXL_DEC_BOX_NEED_MORE_OUTPUT
                    \<and> snd (eb_sizeRaw box_4MiB) + 16384 * j \<le> 4194304
                    \<and> eb_setBoxBuffer_more box_4MiB j = JXL_DEC_SUCCESS)
          \<and> eb_process box_4MiB 1 = JXL_DEC_BOX_COMPLETE"
    by (simp add: box_4MiB_def)
  have e: "\<exists>k. (\<forall>j\<le>k. eb_process box_endless j = JXL_DEC_BOX_NEED_MORE_OUTPUT)
              \<and> snd (eb_sizeRaw box_endless) + 16384 * k > 4194304"
    by (intro exI [of _ 1]) (simp add: box_endless_def)
  have 0: "extractBox build64 box_100 0 5000000 fresh = (True, 16484, fresh)"
    using extractBox_buffer [OF v, where eb = box_100 and container_size = 5000000
        and ?out0.0 = 0 and h = fresh and n = 1, THEN conjunct2, THEN conjunct1] s
    by (simp add: box_100_def)
  have t: "extractBox build64 box_4MiB 0 5000000 fresh = (True, 4210688, fresh)"
    using extractBox_buffer [OF v, where eb = box_4MiB and container_size = 5000000
        and ?out0.0 = 0 and h = fresh and n = 1, THEN conjunct2, THEN conjunct1] m
    by (simp add: box_4MiB_def)
  have 1: "fst (snd (extractBox build64 box_4MiB 0 5000000 fresh)) \<le> 4194304 + 16384"
    using t by simp
  have 2: "\<not> fst (extractBox build64 box_4MiB 0 1000 fresh)"
    using extractBox_buffer [OF v, where eb = box_4MiB and container_size = 1000 and ?out0.0 = 0
        and h = fresh, THEN conjunct1] raw by auto
  have 3: "\<not> fst (extractBox build64 box_endless 0 5000000 fresh)
      \<and> m_parseState (snd (snd (extractBox build64 box_endless 0 5000000 fresh)))
          = ParseJpegXLError"
    using extractBox_buffer [OF v, where eb = box_endless and container_size = 5000000
        and ?out0.0 = 0 and h = fresh, THEN conjunct2, THEN conjunct2, THEN conjunct2] e by blast
  show ?thesis
    using v 0 t 1 2 3 by simp
qed

section \<open>Properties of the PFM reader\<close>

lemma read_pixel_Some:
  "read_pixel one bw s = Some (px, s') \<Longrightarrow>
     px = pixels one bw (take (channels bw) s) \<and> s' = drop (channels bw) s
     \<and> channels bw \<le> length s"
  by (induction one bw s rule: read_pixel.induct) (auto simp: channels_def)

lemma pixels_take_Suc:
  assumes "channels bw \<le> length s"
  shows "pixels one bw (take (channels bw * Suc n) s)
    = pixels one bw (take (channels bw) s) @ pixels one bw (take (channels bw * n) (drop (channels bw) s))"
proof (cases bw)
  case True
  with assms obtain g rest where "s = g # rest"
    by (cases s) (auto simp: channels_def)
  with True show ?thesis by (simp add: channels_def)
next
  case False
  with assms obtain r g b rest where "s = r # g # b # rest"
    by (cases s; cases "tl s"; cases "tl (tl s)") (auto simp: channels_def)
  with False show ?thesis by (simp add: channels_def numeral_3_eq_3)
qed

lemma read_line_Some:
  "read_line one bw n s = Some (line, s') \<Longrightarrow>
     line = pixels one bw (take (channels bw * n) s) \<and> s' = drop (channels bw * n) s"
proof (induction n arbitrary: s line s')
  case 0
  then show ?case by (cases bw) simp_all
next
  case (Suc n)
  from Suc.prems obtain px s1 line1 where
    px: "read_pixel one bw s = Some (px, s1)"
    and l1: "read_line one bw n s1 = Some (line1, s')"
    and line: "line = px @ line1"
    by (auto split: option.splits prod.splits)
  from read_pixel_Some [OF px] Suc.IH [OF l1] line pixels_take_Suc [of bw s one n]
  show ?case
    by (simp add: add.commute)
qed

lemma read_lines_rows:
  "read_lines one hdr w h y img s = Some img' \<Longrightarrow> length img = h \<Longrightarrow>
     length img' = h
     \<and> (\<forall>k. y + k < h \<longrightarrow>
           img' ! (if m_ps hdr then y + k else h - (y + k) - 1)
             = pixels one (m_bw hdr)
                 (take (channels (m_bw hdr) * w) (drop (k * (channels (m_bw hdr) * w)) s)))
     \<and> (\<forall>i<h. (\<forall>k. y + k < h \<longrightarrow> (if m_ps hdr then y + k else h - (y + k) - 1) \<noteq> i)
           \<longrightarrow> img' ! i = img ! i)"
proof (induction one hdr w h y img s rule: read_lines.induct)
  case (1 one hdr w h y img s)
  let ?c = "channels (m_bw hdr) * w"
  let ?idx = "\<lambda>y. if m_ps hdr then y else h - y - 1"
  show ?case
  proof (cases "y < h")
    case False
    with "1.prems" show ?thesis
      by (simp add: read_lines.simps [of one hdr w h y img s])
  next
    case True
    with "1.prems" obtain line s1 where
      rl: "read_line one (m_bw hdr) w s = Some (line, s1)"
      and rec: "read_lines one hdr w h (Suc y) (img[?idx y := line]) s1 = Some img'"
      by (auto simp: read_lines.simps [of one hdr w h y img s] split: option.splits)
    from read_line_Some [OF rl] have line: "line = pixels one (m_bw hdr) (take ?c s)"
      and s1: "s1 = drop ?c s"
      by simp_all
    have len: "length (img[?idx y := line]) = h"
      using "1.prems" by simp
    note ih = "1.IH" [OF True rl refl rec len]
    have idx_lt: "?idx y < h" using True by auto
    have rows: "img' ! (?idx (y + k))
        = pixels one (m_bw hdr) (take ?c (drop (k * ?c) s))" if "y + k < h" for k
    proof (cases k)
      case 0
      have "\<forall>k. Suc y + k < h \<longrightarrow> ?idx (Suc y + k) \<noteq> ?idx y"
        by auto
      with ih idx_lt have "img' ! (?idx y) = (img[?idx y := line]) ! (?idx y)"
        by blast
      with 0 line idx_lt "1.prems" show ?thesis by (cases "m_ps hdr") simp_all
    next
      case (Suc k')
      with that ih have "img' ! (?idx (Suc y + k'))
          = pixels one (m_bw hdr) (take ?c (drop (k' * ?c) s1))"
        by auto
      with Suc s1 show ?thesis
        by (cases "m_ps hdr") (simp_all add: add.commute)
    qed
    have kept: "img' ! i = img ! i"
      if "i < h" and "\<forall>k. y + k < h \<longrightarrow> ?idx (y + k) \<noteq> i" for i
    proof -
      from that(2) True have ne: "?idx y \<noteq> i"
        by (metis add.right_neutral)
      have "\<forall>k. Suc y + k < h \<longrightarrow> ?idx (Suc y + k) \<noteq> i"
      proof (intro allI impI)
        fix k assume "Suc y + k < h"
        then have "y + Suc k < h" by simp
        with that(2) have "?idx (y + Suc k) \<noteq> i" by blast
        then show "?idx (Suc y + k) \<noteq> i" by (cases "m_ps hdr") simp_all
      qed
      with ih that(1) have "img' ! i = (img[?idx y := line]) ! i"
        by blast
      with ne show ?thesis by simp
    qed
    from ih rows kept show ?thesis
      by auto
  qed
qed

lemma PFMHeader_read_True:
  assumes "PFMHeader_read qt hd0 d = (True, hdr, d')"
  shows "(m_ps hdr \<longleftrightarrow> m_ps hd0 \<or> length (split_space (fst (readLine 128 (drop 3 d)))) = 1)
    \<and> isValid hdr"
  using assms
  by (auto simp: PFMHeader_read_def Let_def
      split: prod.splits if_splits option.splits double_sign.splits)

text \<open>
  C9. For every PFM input that read accepts, and every \<open>y\<close> below the height: the
  scanline \<open>height - 1 - y\<close> of the image holds the \<open>y\<close>-th row of the data stream
  when the header is GIMP's (bottom-up), and the scanline \<open>y\<close> holds it when the
  header is Photoshop's (top-down). The header is Photoshop's when its second line
  has a single part, the width alone.
\<close>

theorem PFM_row_order:
  assumes r: "PFMHandler_read qt one garbage allocated floats hd0 d = (True, Some img, hdr)"
    and y: "y < nat (m_height hdr)"
  shows "img ! (if m_ps hdr then y else nat (m_height hdr) - 1 - y)
      = stream_row one (m_bw hdr) (nat (m_width hdr))
          (floats (m_byteOrder hdr) (snd (snd (PFMHeader_read qt hd0 d)))) y
    \<and> length img = nat (m_height hdr)
    \<and> (m_ps hdr \<longleftrightarrow>
         m_ps hd0 \<or> length (split_space (fst (readLine 128 (drop 3 d)))) = 1)"
proof -
  obtain d' where hr: "PFMHeader_read qt hd0 d = (True, hdr, d')"
    and rl: "read_lines one hdr (nat (m_width hdr)) (nat (m_height hdr)) 0
               (replicate (nat (m_height hdr)) (replicate (4 * nat (m_width hdr)) garbage))
               (floats (m_byteOrder hdr) d') = Some img"
    using r
    by (auto simp: PFMHandler_read_def Let_def split: prod.splits if_splits option.splits)
  from read_lines_rows [OF rl] y
  have "img ! (if m_ps hdr then 0 + y else nat (m_height hdr) - (0 + y) - 1)
      = pixels one (m_bw hdr)
          (take (channels (m_bw hdr) * nat (m_width hdr))
             (drop (y * (channels (m_bw hdr) * nat (m_width hdr)))
                (floats (m_byteOrder hdr) d')))"
    and len: "length img = nat (m_height hdr)"
    by simp_all
  then have "img ! (if m_ps hdr then y else nat (m_height hdr) - 1 - y)
      = stream_row one (m_bw hdr) (nat (m_width hdr)) (floats (m_byteOrder hdr) d') y"
    by (cases "m_ps hdr") (simp_all add: stream_row_def)
  with len PFMHeader_read_True [OF hr] hr show ?thesis
    by simp
qed

lemma read_gimp_1x2:
  "PFMHandler_read qt_example 1 0 True floats_example new_PFMHeader gimp_1x2
    = (True, Some [[100, 101, 102, 1], [97, 98, 99, 1]],
       \<lparr>m_bw = False, m_ps = False, m_width = 1, m_height = 2, m_byteOrder = LittleEndian\<rparr>)"
  by (simp add: PFMHandler_read_def PFMHeader_read_def qt_example_def floats_example_def
      new_PFMHeader_def gimp_1x2_def isValid_def read_lines.simps Let_def)
    (simp add: numeral_2_eq_2)

lemma read_photoshop_1x2:
  "PFMHandler_read qt_example 1 0 True floats_example new_PFMHeader photoshop_1x2
    = (True, Some [[97, 98, 99, 1], [100, 101, 102, 1]],
       \<lparr>m_bw = False, m_ps = True, m_width = 1, m_height = 2, m_byteOrder = LittleEndian\<rparr>)"
  by (simp add: PFMHandler_read_def PFMHeader_read_def qt_example_def floats_example_def
      new_PFMHeader_def photoshop_1x2_def isValid_def read_lines.simps Let_def)
    (simp add: numeral_2_eq_2)

theorem PFM_row_order_witness:
  "PFMHandler_read qt_example 1 0 True floats_example new_PFMHeader gimp_1x2
     = (True, Some [[100, 101, 102, 1], [97, 98, 99, 1]],
        \<lparr>m_bw = False, m_ps = False, m_width = 1, m_height = 2, m_byteOrder = LittleEndian\<rparr>)
   \<and> [[100, 101, 102, 1], [97, 98, 99, 1]] ! 1
       = stream_row 1 False 1 (floats_example LittleEndian ''abcdef'') 0
   \<and> PFMHandler_read qt_example 1 0 True floats_example new_PFMHeader photoshop_1x2
     = (True, Some [[97, 98, 99, 1], [100, 101, 102, 1]],
        \<lparr>m_bw = False, m_ps = True, m_width = 1, m_height = 2, m_byteOrder = LittleEndian\<rparr>)
   \<and> [[97, 98, 99, 1], [100, 101, 102, 1]] ! 1
       = stream_row 1 False 1 (floats_example LittleEndian ''abcdef'') 1"
proof -
  have g: "snd (snd (PFMHeader_read qt_example new_PFMHeader gimp_1x2)) = ''abcdef''"
    by (simp add: PFMHeader_read_def qt_example_def new_PFMHeader_def gimp_1x2_def Let_def)
  have p: "snd (snd (PFMHeader_read qt_example new_PFMHeader photoshop_1x2)) = ''abcdef''"
    by (simp add: PFMHeader_read_def qt_example_def new_PFMHeader_def photoshop_1x2_def Let_def)
  have 1: "[[100, 101, 102, 1], [97, 98, 99, 1]] ! 1
       = stream_row 1 False 1 (floats_example LittleEndian ''abcdef'') (0::nat)"
    using PFM_row_order [OF read_gimp_1x2, of 0] g by simp
  have 2: "[[97, 98, 99, 1], [100, 101, 102, 1]] ! 1
       = stream_row 1 False 1 (floats_example LittleEndian ''abcdef'') (1::nat)"
    using PFM_row_order [OF read_photoshop_1x2, of 1] p by simp
  show ?thesis
    using read_gimp_1x2 read_photoshop_1x2 1 2 by simp
qed

section \<open>Properties of the frame delay\<close>

lemma bitlength_bounds:
  "0 < n \<Longrightarrow> 2 ^ (bitlength n - 1) \<le> n \<and> n < 2 ^ bitlength n"
proof (induction n rule: bitlength.induct)
  case (1 n)
  show ?case
  proof (cases "n div 2 = 0")
    case True
    with "1.prems" have "n = 1" by (simp add: div_eq_0_iff)
    then show ?thesis by (simp add: bitlength.simps)
  next
    case False
    then have pos: "0 < n div 2" by simp
    from "1.prems" have n0: "n \<noteq> 0" by simp
    from "1.IH" [OF n0 pos] have lo: "2 ^ (bitlength (n div 2) - 1) \<le> n div 2"
      and hi: "n div 2 < 2 ^ bitlength (n div 2)"
      by simp_all
    have bl: "bitlength n = Suc (bitlength (n div 2))"
      using n0 by (simp add: bitlength.simps [of n])
    have bpos: "0 < bitlength (n div 2)"
      using pos by (simp add: bitlength.simps [of "n div 2"])
    have "(2::nat) ^ bitlength (n div 2) = 2 * 2 ^ (bitlength (n div 2) - 1)"
      using bpos by (cases "bitlength (n div 2)") simp_all
    with lo have "(2::nat) ^ bitlength (n div 2) \<le> 2 * (n div 2)"
      by simp
    also have "\<dots> \<le> n" by simp
    finally have a: "2 ^ (bitlength n - 1) \<le> n" by (simp add: bl)
    from hi have "2 * (n div 2) + 2 \<le> 2 * 2 ^ bitlength (n div 2)" by simp
    moreover have "n < 2 * (n div 2) + 2" by presburger
    ultimately have b: "n < 2 ^ bitlength n" by (simp add: bl)
    from a b show ?thesis by simp
  qed
qed

lemma round_half_even_cases:
  assumes "0 < b"
  shows "round_half_even a b = a div b \<and> 2 * (a mod b) \<le> b
       \<or> round_half_even a b = a div b + 1 \<and> b \<le> 2 * (a mod b)"
  by (auto simp: round_half_even_def Let_def)

lemma real_div_mod:
  assumes "0 < b"
  shows "real a / real b = real (a div b) + real (a mod b) / real b"
proof -
  have "real a = real (a div b) * real b + real (a mod b)"
    by (metis div_mult_mod_eq of_nat_add of_nat_mult)
  then show ?thesis
    using assms by (simp add: field_simps)
qed

lemma round_half_even_error:
  assumes b: "0 < b"
  shows "\<bar>real (round_half_even a b) - real a / real b\<bar> \<le> 1 / 2"
proof -
  have m: "real (a mod b) / real b < 1" "0 \<le> real (a mod b) / real b"
    using b by simp_all
  from round_half_even_cases [OF b, of a] show ?thesis
  proof
    assume c: "round_half_even a b = a div b \<and> 2 * (a mod b) \<le> b"
    then have "2 * real (a mod b) \<le> real b"
      by (metis of_nat_le_iff of_nat_mult of_nat_numeral)
    then have "real (a mod b) / real b \<le> 1 / 2"
      using b by (simp add: field_simps)
    with c m show ?thesis
      by (simp add: real_div_mod [OF b, of a])
  next
    assume c: "round_half_even a b = a div b + 1 \<and> b \<le> 2 * (a mod b)"
    then have "real b \<le> 2 * real (a mod b)"
      by (metis of_nat_le_iff of_nat_mult of_nat_numeral)
    then have "1 / 2 \<le> real (a mod b) / real b"
      using b by (simp add: field_simps)
    with c m show ?thesis
      by (simp add: real_div_mod [OF b, of a])
  qed
qed

lemma round_half_even_lower:
  assumes b: "0 < b" and z: "real z \<le> real a / real b"
  shows "z \<le> round_half_even a b"
proof -
  from z b have "real z * real b \<le> real a"
    by (simp add: field_simps)
  then have "z * b \<le> a"
    by (metis of_nat_le_iff of_nat_mult)
  then have "z \<le> a div b"
    using b by (simp add: less_eq_div_iff_mult_less_eq)
  with round_half_even_cases [OF b, of a] show ?thesis
    by auto
qed

lemma round_half_even_upper:
  assumes b: "0 < b" and z: "real a / real b \<le> real z"
  shows "round_half_even a b \<le> z"
proof -
  from z b have "real a \<le> real z * real b"
    by (simp add: field_simps)
  then have le: "a \<le> z * b"
    by (metis of_nat_le_iff of_nat_mult)
  show ?thesis
  proof (cases "a div b < z")
    case True
    with round_half_even_cases [OF b, of a] show ?thesis by auto
  next
    case False
    have "a div b \<le> z"
      using le b by (metis div_le_mono div_mult_self_is_m)
    with False have eq: "a div b = z" by simp
    then have "a mod b = 0"
      using le by (metis add_diff_cancel_left' diff_is_0_eq' div_mult_mod_eq mult.commute)
    then show ?thesis
      using eq b by (simp add: round_half_even_def)
  qed
qed

lemma binade_bounds:
  assumes p: "0 < p" and q: "0 < q"
  shows "2 powi (binade p q) \<le> real p / real q
    \<and> real p / real q < 2 powi (binade p q + 1)"
proof -
  define bp where "bp = bitlength p"
  define bq where "bq = bitlength q"
  define d where "d = int bp - int bq"
  from bitlength_bounds [OF p] have p1: "2 ^ (bp - 1) \<le> p" and p2: "p < 2 ^ bp"
    by (simp_all add: bp_def)
  from bitlength_bounds [OF q] have q1: "2 ^ (bq - 1) \<le> q" and q2: "q < 2 ^ bq"
    by (simp_all add: bq_def)
  have bp0: "0 < bp" using p p2 by (cases bp) simp_all
  have bq0: "0 < bq" using q q2 by (cases bq) simp_all
  have rp1: "(2::real) powi (int bp - 1) \<le> real p"
  proof -
    have "(2::real) ^ (bp - 1) \<le> real p"
      using p1 by (metis of_nat_le_iff of_nat_numeral of_nat_power)
    moreover have "int bp - 1 = int (bp - 1)" using bp0 by simp
    ultimately show ?thesis by (simp only: power_int_of_nat)
  qed
  have rp2: "real p < 2 powi (int bp)"
    using p2 by (metis of_nat_less_iff of_nat_numeral of_nat_power power_int_of_nat)
  have rq1: "(2::real) powi (int bq - 1) \<le> real q"
  proof -
    have "(2::real) ^ (bq - 1) \<le> real q"
      using q1 by (metis of_nat_le_iff of_nat_numeral of_nat_power)
    moreover have "int bq - 1 = int (bq - 1)" using bq0 by simp
    ultimately show ?thesis by (simp only: power_int_of_nat)
  qed
  have rq2: "real q < 2 powi (int bq)"
    using q2 by (metis of_nat_less_iff of_nat_numeral of_nat_power power_int_of_nat)
  have qpos: "0 < real q" using q by simp
  have upper: "real p / real q < 2 powi (d + 1)"
  proof -
    have "real p < 2 powi (d + 1) * 2 powi (int bq - 1)"
      using rp2 by (simp add: d_def power_int_add [symmetric])
    also have "\<dots> \<le> 2 powi (d + 1) * real q"
      using rq1 by (simp add: mult_left_mono)
    finally show ?thesis
      using qpos by (simp add: field_simps)
  qed
  have lower: "2 powi (d - 1) \<le> real p / real q"
  proof -
    have "2 powi (d - 1) * real q \<le> 2 powi (d - 1) * 2 powi (int bq)"
      using rq2 by (simp add: mult_left_mono)
    also have "\<dots> = 2 powi (int bp - 1)"
    proof -
      have "(2::real) powi (d - 1) * 2 powi (int bq) = 2 powi (d - 1 + int bq)"
        by (rule power_int_add [symmetric]) simp
      then show ?thesis by (simp add: d_def)
    qed
    also have "\<dots> \<le> real p" by (rule rp1)
    finally show ?thesis
      using qpos by (simp add: field_simps)
  qed
  have test: "(if 0 \<le> d then q * 2 ^ nat d \<le> p else q \<le> p * 2 ^ nat (- d))
      \<longleftrightarrow> 2 powi d \<le> real p / real q"
  proof (cases "0 \<le> d")
    case True
    have "q * 2 ^ nat d \<le> p \<longleftrightarrow> real q * 2 ^ nat d \<le> real p"
      by (metis of_nat_le_iff of_nat_mult of_nat_numeral of_nat_power)
    also have "\<dots> \<longleftrightarrow> 2 ^ nat d \<le> real p / real q"
      using qpos by (simp add: field_simps)
    also have "(2::real) ^ nat d = 2 powi d"
      using True by (simp add: power_int_def)
    finally show ?thesis using True by simp
  next
    case False
    have "q \<le> p * 2 ^ nat (- d) \<longleftrightarrow> real q \<le> real p * 2 ^ nat (- d)"
      by (metis of_nat_le_iff of_nat_mult of_nat_numeral of_nat_power)
    also have "\<dots> \<longleftrightarrow> inverse (2 ^ nat (- d)) \<le> real p / real q"
      using qpos by (simp add: field_simps)
    also have "inverse ((2::real) ^ nat (- d)) = 2 powi d"
      using False by (simp add: power_int_def power_one_over inverse_eq_divide)
    finally show ?thesis using False by simp
  qed
  have b: "binade p q = (if 2 powi d \<le> real p / real q then d else d - 1)"
    unfolding binade_def Let_def bp_def [symmetric] bq_def [symmetric] d_def [symmetric]
    using test by simp
  show ?thesis
  proof (cases "2 powi d \<le> real p / real q")
    case True
    with b upper show ?thesis by simp
  next
    case False
    with b lower show ?thesis by simp
  qed
qed

lemma rounds_to_round_half_even:
  assumes "0 < b" and "x / u = real a / real b"
  shows "rounds_to x u (round_half_even a b)"
  using assms round_half_even_error [of b a] round_half_even_lower [of b _ a]
    round_half_even_upper [of b a]
  by (simp add: rounds_to_def)

lemma fl_char:
  assumes p: "0 < p" and q: "0 < q"
  shows "0 < snd (fl p q)
    \<and> (\<exists>m. val (fl p q) = real m * 2 powi (binade p q - 52)
           \<and> rounds_to (real p / real q) (2 powi (binade p q - 52)) m)"
proof (cases "52 \<le> binade p q")
  case True
  define k where "k = nat (binade p q - 52)"
  have u: "2 powi (binade p q - 52) = (2::real) ^ k"
    using True by (simp add: k_def power_int_def)
  have f: "fl p q = (round_half_even p (q * 2 ^ k) * 2 ^ k, 1)"
    using p q True by (simp add: fl_def Let_def k_def)
  have "real p / real q / 2 ^ k = real p / real (q * 2 ^ k)"
    by simp
  then have "rounds_to (real p / real q) (2 ^ k) (round_half_even p (q * 2 ^ k))"
    using q by (intro rounds_to_round_half_even) simp_all
  then show ?thesis
    unfolding u by (intro conjI exI [of _ "round_half_even p (q * 2 ^ k)"])
      (simp_all add: f val_def)
next
  case False
  define k where "k = nat (52 - binade p q)"
  have u: "2 powi (binade p q - 52) = inverse ((2::real) ^ k)"
  proof -
    have "binade p q - 52 = - int k" using False by (simp add: k_def)
    then show ?thesis by (simp add: power_int_minus)
  qed
  have f: "fl p q = (round_half_even (p * 2 ^ k) q, 2 ^ k)"
    using p q False by (simp add: fl_def Let_def k_def)
  have "real p / real q / inverse (2 ^ k) = real (p * 2 ^ k) / real q"
    by (simp add: field_simps)
  then have "rounds_to (real p / real q) (inverse (2 ^ k)) (round_half_even (p * 2 ^ k) q)"
    using q by (intro rounds_to_round_half_even) simp_all
  then show ?thesis
    unfolding u by (intro conjI exI [of _ "round_half_even (p * 2 ^ k) q"])
      (simp_all add: f val_def field_simps)
qed

lemma binade_less:
  assumes "0 < p" "0 < q" and "real p / real q < 2 powi E"
  shows "binade p q < E"
proof (rule ccontr)
  assume "\<not> binade p q < E"
  then have "(2::real) powi E \<le> 2 powi (binade p q)"
    by (intro power_int_increasing) simp_all
  with binade_bounds [OF assms(1,2)] assms(3) show False
    by simp
qed

lemma fl_zero: "fl 0 q = (0, 1)"
  by (simp add: fl_def)

lemma fl_upper_error:
  assumes "0 < p" "0 < q"
  shows "val (fl p q) \<le> real p / real q + 2 powi (binade p q - 52) / 2"
proof -
  from fl_char [OF assms] obtain m where
    v: "val (fl p q) = real m * 2 powi (binade p q - 52)"
    and r: "rounds_to (real p / real q) (2 powi (binade p q - 52)) m"
    by blast
  let ?u = "(2::real) powi (binade p q - 52)"
  have u: "0 < ?u" by simp
  from r have "\<bar>real m - real p / real q / ?u\<bar> \<le> 1 / 2"
    unfolding rounds_to_def by blast
  then have "real m \<le> real p / real q / ?u + 1 / 2"
    by linarith
  then have "real m * ?u \<le> (real p / real q / ?u + 1 / 2) * ?u"
    using u by (intro mult_right_mono) simp_all
  also have "\<dots> = real p / real q + ?u / 2"
    using u by (simp add: field_simps)
  finally show ?thesis
    by (simp add: v)
qed

lemma fl_ge_half_integer:
  assumes p: "0 < p" and q: "0 < q" and e: "binade p q \<le> 51"
    and j: "real j / 2 \<le> real p / real q"
  shows "real j / 2 \<le> val (fl p q)"
proof -
  from fl_char [OF p q] obtain m where
    v: "val (fl p q) = real m * 2 powi (binade p q - 52)"
    and r: "rounds_to (real p / real q) (2 powi (binade p q - 52)) m"
    by blast
  let ?u = "(2::real) powi (binade p q - 52)"
  define z where "z = j * 2 ^ nat (51 - binade p q)"
  have u: "0 < ?u" by simp
  have "(2::real) ^ nat (51 - binade p q) = 2 powi (51 - binade p q)"
    using e by (simp add: power_int_def)
  then have "real z * ?u = real j * (2 powi (51 - binade p q) * ?u)"
    by (simp add: z_def)
  also have "2 powi (51 - binade p q) * ?u = (2::real) powi (- 1)"
    by (subst power_int_add [symmetric]) simp_all
  finally have zu: "real z * ?u = real j / 2"
    by (simp add: power_int_minus)
  then have "real z = real j / 2 / ?u"
    using u by (simp add: field_simps)
  also have "\<dots> \<le> real p / real q / ?u"
    using j u by (intro divide_right_mono) simp_all
  finally have "z \<le> m"
    using r by (simp add: rounds_to_def)
  then have "real z * ?u \<le> real m * ?u"
    using u by (intro mult_right_mono) simp_all
  then show ?thesis
    by (simp add: v zu)
qed

lemma fl_exact:
  assumes q: "0 < q" and N: "real p / real q = real N" and small: "N < 2 ^ 53"
  shows "val (fl p q) = real N \<and> 0 < snd (fl p q)"
proof (cases "p = 0")
  case True
  with N q show ?thesis by (simp add: fl_zero val_def)
next
  case False
  then have p: "0 < p" by simp
  from fl_char [OF p q] obtain m where
    v: "val (fl p q) = real m * 2 powi (binade p q - 52)"
    and r: "rounds_to (real p / real q) (2 powi (binade p q - 52)) m"
    and s: "0 < snd (fl p q)"
    by blast
  let ?u = "(2::real) powi (binade p q - 52)"
  have u: "0 < ?u" by simp
  have "real N < 2 ^ 53"
    using small by (metis of_nat_less_iff of_nat_numeral of_nat_power)
  then have "real p / real q < 2 powi 53"
    by (simp add: N)
  from binade_less [OF p q this] have e: "binade p q \<le> 52" by simp
  define z where "z = N * 2 ^ nat (52 - binade p q)"
  have "(2::real) ^ nat (52 - binade p q) = 2 powi (52 - binade p q)"
    using e by (simp add: power_int_def)
  then have "real z * ?u = real N * (2 powi (52 - binade p q) * ?u)"
    by (simp add: z_def)
  also have "2 powi (52 - binade p q) * ?u = (2::real) powi 0"
    by (subst power_int_add [symmetric]) simp_all
  finally have zu: "real z * ?u = real N"
    by simp
  then have "real z = real p / real q / ?u"
    using u N by (simp add: field_simps)
  with r have "z \<le> m" "m \<le> z"
    by (simp_all add: rounds_to_def)
  then have "m = z" by simp
  with v zu s show ?thesis by simp
qed

lemma powi_m34: "(2::real) powi (- 34) = 1 / 2 ^ 34"
  by (simp add: power_int_minus inverse_eq_divide)

lemma powi_m33: "(2::real) powi (- 33) = 1 / 2 ^ 33"
  by (simp add: power_int_minus inverse_eq_divide)

lemma val_nonneg: "0 \<le> val x"
  by (simp add: val_def)

lemma fl_error_below:
  assumes "0 < p" "0 < q" "real p / real q < 2 powi E"
  shows "val (fl p q) \<le> real p / real q + 2 powi (E - 53) / 2"
proof -
  from binade_less [OF assms] have "binade p q - 52 \<le> E - 53" by simp
  then have "(2::real) powi (binade p q - 52) \<le> 2 powi (E - 53)"
    by (intro power_int_increasing) simp_all
  with fl_upper_error [OF assms(1,2)] show ?thesis by simp
qed

lemma div_from_real_bounds:
  assumes "0 < q" "real k \<le> real p / real q" "real p / real q < real k + 1"
  shows "p div q = k"
proof -
  from assms have "real k * real q \<le> real p" "real p < (real k + 1) * real q"
    by (simp_all add: field_simps)
  then have "k * q \<le> p" "p < (k + 1) * q"
    by (metis of_nat_le_iff of_nat_mult, metis of_nat_less_iff of_nat_mult of_nat_add of_nat_1)
  then show ?thesis
    using assms(1) by (metis add.commute div_nat_eqI mult.commute plus_1_eq_Suc)
qed

text \<open>
  For a quotient below \<open>2 ^ 19\<close> the double computation gives the rounded delay of the
  specification: the two rounding errors together are below \<open>1 / (2 * tps_numerator)\<close>.
\<close>

lemma frame_delay_rounds:
  assumes n0: "0 < tps_numerator a" and d0: "0 < tps_denominator a"
    and n32: "tps_numerator a < 2 ^ 32"
    and exact: "1000 * duration f * tps_denominator a < 2 ^ 53"
    and small: "1000 * duration f * tps_denominator a < 2 ^ 19 * tps_numerator a"
  shows "frame_delay a f = Some (rounded_delay a f)"
proof -
  define n where "n = tps_numerator a"
  define P where "P = 1000 * duration f * tps_denominator a"
  define k where "k = (2 * P + n) div (2 * n)"
  define x where "x = real P / real n"
  define a1 where "a1 = double_mul (1000, 1) (double_of_uint32 (duration f))"
  define b1 where "b1 = double_mul a1 (double_of_uint32 (tps_denominator a))"
  define c1 where "c1 = double_div b1 (double_of_uint32 n)"
  define d1 where "d1 = double_add (1, 2) c1"
  have npos: "0 < n" and nreal: "0 < real n" using n0 by (simp_all add: n_def)
  have fd: "frame_delay a f = double_to_int d1"
    using n0 d0 by (simp add: frame_delay_def d1_def c1_def b1_def a1_def n_def)
  \<comment> \<open>the two products are exact\<close>
  have "1000 * duration f * 1 \<le> 1000 * duration f * tps_denominator a"
    using d0 by (intro mult_le_mono2) simp
  then have "1000 * duration f \<le> 1000 * duration f * tps_denominator a"
    by (simp only: mult_1_right)
  from this exact have N: "1000 * duration f < 2 ^ 53"
    by (rule le_less_trans)
  have a1: "val a1 = real (1000 * duration f) \<and> 0 < snd a1"
    unfolding a1_def double_mul_def double_of_uint32_def
    using fl_exact [of 1 "1000 * duration f" "1000 * duration f"] N by simp
  have "real (fst a1 * tps_denominator a) / real (snd a1) = val a1 * real (tps_denominator a)"
    by (simp add: val_def)
  also have "\<dots> = real P"
    using a1 by (simp add: P_def)
  finally have "real (fst a1 * tps_denominator a) / real (snd a1) = real P" .
  with a1 exact have b1: "val b1 = real P \<and> 0 < snd b1"
    unfolding b1_def double_mul_def double_of_uint32_def
    using fl_exact [of "snd a1" "fst a1 * tps_denominator a" P] by (simp add: P_def)
  \<comment> \<open>the rounded quotient\<close>
  have k1: "real k - 1 / 2 \<le> x"
  proof -
    have "2 * n * k \<le> 2 * P + n"
      unfolding k_def by (metis mult.commute div_times_less_eq_dividend)
    then have "real (2 * n * k) \<le> real (2 * P + n)"
      by (simp only: of_nat_le_iff)
    then show ?thesis
      using nreal by (simp add: x_def field_simps)
  qed
  have k2: "x + 1 / 2 + 1 / (2 * real n) \<le> real k + 1"
  proof -
    have "2 * P + n < 2 * n * (k + 1)"
      unfolding k_def using npos
      by (metis add.commute dividend_less_times_div mult.commute mult_Suc_right
          plus_1_eq_Suc zero_less_numeral nat_0_less_mult_iff)
    then have "2 * P + n + 1 \<le> 2 * n * (k + 1)"
      by simp
    then have "real (2 * P + n + 1) \<le> real (2 * n * (k + 1))"
      by (simp only: of_nat_le_iff)
    then show ?thesis
      using nreal by (simp add: x_def field_simps)
  qed
  have xs: "x < 2 ^ 19"
  proof -
    have "real P < real (2 ^ 19 * n)"
      using small by (simp only: of_nat_less_iff P_def n_def)
    then show ?thesis
      using nreal by (simp add: x_def field_simps)
  qed
  have n33: "1 / 2 ^ 33 < 1 / (2 * real n)"
  proof -
    have "real n < 2 ^ 32"
      using n32 by (metis n_def of_nat_less_iff of_nat_numeral of_nat_power)
    then show ?thesis
      using nreal by (simp add: field_simps)
  qed
  \<comment> \<open>the quotient in double precision\<close>
  have c1: "real k - 1 / 2 \<le> val c1 \<and> val c1 \<le> x + 1 / 2 ^ 35 \<and> 0 < snd c1"
  proof (cases "fst b1 = 0")
    case True
    with b1 have "P = 0" by (simp add: val_def)
    then have "k = 0" "x = 0"
      using npos by (simp_all add: k_def x_def)
    moreover have "c1 = (0, 1)"
      using True by (simp add: c1_def double_div_def double_of_uint32_def fl_zero)
    ultimately show ?thesis
      by (simp add: val_def)
  next
    case False
    let ?p = "fst b1 * 1" and ?q = "snd b1 * n"
    have c: "c1 = fl ?p ?q"
      by (simp add: c1_def double_div_def double_of_uint32_def)
    have p: "0 < ?p" using False by simp
    have q: "0 < ?q" using b1 npos by simp
    have "real ?p / real ?q = val b1 / real n"
      by (simp add: val_def)
    then have pq: "real ?p / real ?q = x"
      using b1 by (simp add: x_def)
    have lt: "real ?p / real ?q < 2 powi 19"
      using xs pq by simp
    from fl_error_below [OF p q lt] have hi: "val c1 \<le> x + 1 / 2 ^ 35"
      unfolding c pq by (simp add: powi_m34)
    have lo: "real k - 1 / 2 \<le> val c1"
    proof (cases "k = 0")
      case True
      with val_nonneg [of c1] show ?thesis by simp
    next
      case False
      then have j: "real (2 * k - 1) / 2 = real k - 1 / 2"
        by (simp add: of_nat_diff field_simps)
      have e: "binade ?p ?q \<le> 51"
        using binade_less [OF p q lt] by simp
      have "real (2 * k - 1) / 2 \<le> real ?p / real ?q"
        unfolding pq j by (rule k1)
      from fl_ge_half_integer [OF p q e this] show ?thesis
        unfolding c [symmetric] j .
    qed
    from fl_char [OF p q] have "0 < snd c1"
      unfolding c by blast
    with lo hi show ?thesis by simp
  qed
  \<comment> \<open>one half is added\<close>
  let ?p = "1 * snd c1 + fst c1 * 2" and ?q = "2 * snd c1"
  have d: "d1 = fl ?p ?q"
    by (simp add: d1_def double_add_def)
  have p: "0 < ?p" and q: "0 < ?q"
    using c1 by simp_all
  have "real ?p / real ?q = (real (snd c1) + 2 * real (fst c1)) / (2 * real (snd c1))"
    by simp
  also have "\<dots> = 1 / 2 + real (fst c1) / real (snd c1)"
    using c1 by (simp add: field_simps)
  finally have pq: "real ?p / real ?q = 1 / 2 + val c1"
    by (simp add: val_def)
  have lt: "real ?p / real ?q < 2 powi 20"
    unfolding pq using c1 xs by simp
  from fl_error_below [OF p q lt] have "val d1 \<le> 1 / 2 + val c1 + 1 / 2 ^ 34"
    unfolding d pq by (simp add: powi_m33)
  with c1 have "val d1 \<le> x + 1 / 2 + 1 / 2 ^ 35 + 1 / 2 ^ 34"
    by simp
  also have "\<dots> < x + 1 / 2 + 1 / 2 ^ 33"
    by simp
  also have "\<dots> < real k + 1"
    using n33 k2 by simp
  finally have hi: "val d1 < real k + 1" .
  have e: "binade ?p ?q \<le> 51"
    using binade_less [OF p q lt] by simp
  have "real (2 * k) / 2 \<le> real ?p / real ?q"
    unfolding pq using c1 by simp
  from fl_ge_half_integer [OF p q e this] have lo: "real k \<le> val d1"
    unfolding d by simp
  have sd: "0 < snd d1"
    using fl_char [OF p q] unfolding d by blast
  have t: "fst d1 div snd d1 = k"
    using div_from_real_bounds [OF sd, of k "fst d1"] lo hi by (simp add: val_def)
  have "real k < 2 ^ 19 + 1"
    using k1 xs by simp
  then have "real k < real (2 ^ 20)"
    by simp
  then have "k < 2 ^ 20"
    by (simp only: of_nat_less_iff)
  then have "k \<le> 2147483647" by simp
  with t fd n0 show ?thesis
    by (simp add: double_to_int_def rounded_delay_def k_def P_def n_def)
qed

text \<open>
  The same for every product below \<open>2 ^ 52\<close>. A quotient of 1 or more is rounded to a
  double below the next half-integer, because the rounding error is below
  \<open>1 / (2 * tps_numerator)\<close>; the sum with 0.5 then lies on the grid of the doubles or
  is at most a half-integer, so that it is rounded to a double below the next integer.
\<close>

lemma fl_le_half_integer:
  assumes p: "0 < p" and q: "0 < q" and e: "binade p q \<le> 51"
    and j: "real p / real q \<le> real j / 2"
  shows "val (fl p q) \<le> real j / 2"
proof -
  from fl_char [OF p q] obtain m where
    v: "val (fl p q) = real m * 2 powi (binade p q - 52)"
    and r: "rounds_to (real p / real q) (2 powi (binade p q - 52)) m"
    by blast
  let ?u = "(2::real) powi (binade p q - 52)"
  define z where "z = j * 2 ^ nat (51 - binade p q)"
  have u: "0 < ?u" by simp
  have "(2::real) ^ nat (51 - binade p q) = 2 powi (51 - binade p q)"
    using e by (simp add: power_int_def)
  then have "real z * ?u = real j * (2 powi (51 - binade p q) * ?u)"
    by (simp add: z_def)
  also have "2 powi (51 - binade p q) * ?u = (2::real) powi (- 1)"
    by (subst power_int_add [symmetric]) simp_all
  finally have zu: "real z * ?u = real j / 2"
    by (simp add: power_int_minus)
  then have "real z = real j / 2 / ?u"
    using u by (simp add: field_simps)
  moreover have "real p / real q / ?u \<le> real j / 2 / ?u"
    using j u by (intro divide_right_mono) simp_all
  ultimately have "real p / real q / ?u \<le> real z"
    by simp
  then have "m \<le> z"
    using r by (simp add: rounds_to_def)
  then have "real m * ?u \<le> real z * ?u"
    using u by (intro mult_right_mono) simp_all
  then show ?thesis
    by (simp add: v zu)
qed

lemma fl_le_next_power:
  assumes p: "0 < p" and q: "0 < q"
  shows "val (fl p q) \<le> 2 powi (binade p q + 1)"
proof -
  from fl_char [OF p q] obtain m where
    v: "val (fl p q) = real m * 2 powi (binade p q - 52)"
    and r: "rounds_to (real p / real q) (2 powi (binade p q - 52)) m"
    by blast
  let ?u = "(2::real) powi (binade p q - 52)"
  define z :: nat where "z = 2 ^ 53"
  have u: "0 < ?u" by simp
  have "real z = 2 powi 53"
    by (simp add: z_def)
  then have "real z * ?u = 2 powi 53 * ?u"
    by simp
  also have "\<dots> = (2::real) powi (53 + (binade p q - 52))"
    by (rule power_int_add [symmetric]) simp
  also have "53 + (binade p q - 52) = binade p q + 1"
    by simp
  finally have zu: "real z * ?u = 2 powi (binade p q + 1)" .
  then have "real z = 2 powi (binade p q + 1) / ?u"
    using u by (simp add: field_simps)
  moreover have "real p / real q / ?u \<le> 2 powi (binade p q + 1) / ?u"
    using binade_bounds [OF p q] u by (intro divide_right_mono) simp_all
  ultimately have "real p / real q / ?u \<le> real z"
    by simp
  then have "m \<le> z"
    using r by (simp add: rounds_to_def)
  then have "real m * ?u \<le> real z * ?u"
    using u by (intro mult_right_mono) simp_all
  then show ?thesis
    by (simp add: v zu)
qed

lemma fl_on_grid:
  assumes p: "0 < p" and q: "0 < q"
    and g: "real p / real q = real Y * 2 powi (binade p q - 52)"
  shows "val (fl p q) = real p / real q"
proof -
  from fl_char [OF p q] obtain m where
    v: "val (fl p q) = real m * 2 powi (binade p q - 52)"
    and r: "rounds_to (real p / real q) (2 powi (binade p q - 52)) m"
    by blast
  let ?u = "(2::real) powi (binade p q - 52)"
  have u: "0 < ?u" by simp
  have "real p / real q / ?u = real Y"
    using u by (simp add: g)
  with r have "Y \<le> m" "m \<le> Y"
    by (simp_all add: rounds_to_def)
  then have "m = Y" by simp
  then show ?thesis
    by (simp add: v g)
qed

lemma binade_ge:
  assumes "0 < p" "0 < q" and "2 powi E \<le> real p / real q"
  shows "E \<le> binade p q"
proof (rule ccontr)
  assume "\<not> E \<le> binade p q"
  then have "(2::real) powi (binade p q + 1) \<le> 2 powi E"
    by (intro power_int_increasing) simp_all
  with binade_bounds [OF assms(1,2)] assms(3) show False
    by simp
qed

lemma delay_quotient_large:
  fixes b :: double
  assumes n: "0 < n" and b: "val b = real P" "0 < snd b"
    and big: "n \<le> P" and P52: "P < 2 ^ 52"
  shows "fst (double_add (1, 2) (double_div b (double_of_uint32 n)))
      div snd (double_add (1, 2) (double_div b (double_of_uint32 n)))
    = (2 * P + n) div (2 * n)"
proof -
  define k where "k = (2 * P + n) div (2 * n)"
  define x where "x = real P / real n"
  define c where "c = double_div b (double_of_uint32 n)"
  define d where "d = double_add (1, 2) c"
  have nreal: "0 < real n" using n by simp
  have k1: "real k - 1 / 2 \<le> x"
  proof -
    have "2 * n * k \<le> 2 * P + n"
      unfolding k_def by (metis mult.commute div_times_less_eq_dividend)
    then have "real (2 * n * k) \<le> real (2 * P + n)"
      by (simp only: of_nat_le_iff)
    then show ?thesis
      using nreal by (simp add: x_def field_simps)
  qed
  have k2: "x + 1 / 2 + 1 / (2 * real n) \<le> real k + 1"
  proof -
    have "2 * P + n < 2 * n * (k + 1)"
      unfolding k_def using n
      by (metis add.commute dividend_less_times_div mult.commute mult_Suc_right
          plus_1_eq_Suc zero_less_numeral nat_0_less_mult_iff)
    then have "2 * P + n + 1 \<le> 2 * n * (k + 1)"
      by simp
    then have "real (2 * P + n + 1) \<le> real (2 * n * (k + 1))"
      by (simp only: of_nat_le_iff)
    then show ?thesis
      using nreal by (simp add: x_def field_simps)
  qed
  have x1: "1 \<le> x"
  proof -
    have "real n \<le> real P" using big by simp
    then show ?thesis using nreal by (simp add: x_def field_simps)
  qed
  have P1: "real P \<le> 2 ^ 52 - 1"
  proof -
    have "P + 1 \<le> 2 ^ 52" using P52 by simp
    then have "real (P + 1) \<le> real (2 ^ 52)" by (simp only: of_nat_le_iff)
    then show ?thesis by simp
  qed
  have xP: "x \<le> real P"
  proof -
    have "1 \<le> real n" using n by simp
    then have "real P / real n \<le> real P / 1"
      by (intro divide_left_mono) simp_all
    then show ?thesis by (simp add: x_def)
  qed
  have x52: "x < 2 ^ 52" using xP P1 by simp
  \<comment> \<open>the quotient\<close>
  let ?p = "fst b * 1" and ?q = "snd b * n"
  have cfl: "c = fl ?p ?q"
    by (simp add: c_def double_div_def double_of_uint32_def)
  have fb: "0 < fst b"
  proof (rule ccontr)
    assume "\<not> 0 < fst b"
    then have "val b = 0" by (simp add: val_def)
    with b(1) have "P = 0" by simp
    with big n show False by simp
  qed
  have p: "0 < ?p" using fb by simp
  have q: "0 < ?q" using b(2) n by simp
  have "real ?p / real ?q = val b / real n"
    by (simp add: val_def)
  then have pq: "real ?p / real ?q = x"
    using b(1) by (simp add: x_def)
  define e where "e = binade ?p ?q"
  define u where "u = (2::real) powi (e - 52)"
  have upos: "0 < u" by (simp add: u_def)
  have e0: "0 \<le> e"
  proof -
    have "2 powi 0 \<le> real ?p / real ?q"
      unfolding pq using x1 by simp
    from binade_ge [OF p q this] show ?thesis by (simp add: e_def)
  qed
  have e51: "e \<le> 51"
  proof -
    have "real ?p / real ?q < 2 powi 52"
      unfolding pq using x52 by simp
    from binade_less [OF p q this] show ?thesis by (simp add: e_def)
  qed
  from fl_char [OF p q] obtain m where
    vc: "val c = real m * u" and sc: "0 < snd c"
    unfolding cfl u_def e_def by blast
  have lo_c: "real k - 1 / 2 \<le> val c"
  proof (cases "k = 0")
    case True
    with val_nonneg [of c] show ?thesis by simp
  next
    case False
    then have j: "real (2 * k - 1) / 2 = real k - 1 / 2"
      by (simp add: of_nat_diff field_simps)
    have "real (2 * k - 1) / 2 \<le> real ?p / real ?q"
      unfolding pq j by (rule k1)
    from fl_ge_half_integer [OF p q e51 [unfolded e_def] this] show ?thesis
      unfolding cfl [symmetric] j .
  qed
  have u_le: "u \<le> x / 2 ^ 52"
  proof -
    have "u = 2 powi (e + (- 52))"
      by (simp add: u_def)
    also have "\<dots> = 2 powi e * 2 powi (- 52)"
      by (rule power_int_add) simp
    also have "(2::real) powi (- 52) = 1 / 2 ^ 52"
      by (simp add: power_int_minus inverse_eq_divide)
    also have "2 powi e * (1 / 2 ^ 52) = (2::real) powi e / 2 ^ 52"
      by simp
    also have "\<dots> \<le> x / 2 ^ 52"
      using binade_bounds [OF p q] unfolding pq e_def [symmetric]
      by (intro divide_right_mono) simp_all
    finally show ?thesis .
  qed
  have hi_c: "val c < real k + 1 / 2"
  proof -
    have "val c \<le> x + u / 2"
      using fl_upper_error [OF p q] unfolding cfl [symmetric] pq e_def [symmetric] u_def [symmetric] .
    also have "\<dots> \<le> x + x / 2 ^ 53"
      using u_le by simp
    also have "x / 2 ^ 53 < 1 / (2 * real n)"
    proof -
      have "real P / 2 ^ 53 < 1 / 2" using P1 by simp
      then have "real P / 2 ^ 53 / real n < 1 / 2 / real n"
        using nreal by (intro divide_strict_right_mono) simp_all
      then show ?thesis by (simp add: x_def field_simps)
    qed
    finally have "val c < x + 1 / (2 * real n)" by simp
    with k2 show ?thesis by simp
  qed
  \<comment> \<open>one half is added\<close>
  let ?p2 = "1 * snd c + fst c * 2" and ?q2 = "2 * snd c"
  define s where "s = 1 / 2 + val c"
  have dfl: "d = fl ?p2 ?q2"
    by (simp add: d_def double_add_def)
  have p2: "0 < ?p2" and q2: "0 < ?q2"
    using sc by simp_all
  have "real ?p2 / real ?q2 = (real (snd c) + 2 * real (fst c)) / (2 * real (snd c))"
    by simp
  also have "\<dots> = 1 / 2 + real (fst c) / real (snd c)"
    using sc by (simp add: field_simps)
  finally have pq2: "real ?p2 / real ?q2 = s"
    by (simp add: val_def s_def)
  have s_lt: "s < real k + 1" using hi_c by (simp add: s_def)
  have s_ge: "real k \<le> s" using lo_c by (simp add: s_def)
  have k52: "real k + 1 \<le> 2 ^ 52"
  proof -
    have "real k < 2 ^ 52" using k1 xP P1 by simp
    then have "real k < real (2 ^ 52)" by simp
    then have "k < 2 ^ 52" by (simp only: of_nat_less_iff)
    then have "k + 1 \<le> 2 ^ 52" by simp
    then have "real (k + 1) \<le> real (2 ^ 52)" by (simp only: of_nat_le_iff)
    then show ?thesis by simp
  qed
  define e' where "e' = binade ?p2 ?q2"
  define u' where "u' = (2::real) powi (e' - 52)"
  have e'51: "e' \<le> 51"
  proof -
    have "real ?p2 / real ?q2 < 2 powi 52"
      unfolding pq2 using s_lt k52 by simp
    from binade_less [OF p2 q2 this] show ?thesis by (simp add: e'_def)
  qed
  have lo_d: "real k \<le> val d"
  proof -
    have "real (2 * k) / 2 \<le> real ?p2 / real ?q2"
      unfolding pq2 using s_ge by simp
    from fl_ge_half_integer [OF p2 q2 e'51 [unfolded e'_def] this] show ?thesis
      unfolding dfl by simp
  qed
  have hi_d: "val d < real k + 1"
  proof (cases "e' \<le> e")
    case True
    define Y where "Y = (m + 2 ^ nat (51 - e)) * 2 ^ nat (e - e')"
    have "(2::real) ^ nat (51 - e) = 2 powi (51 - e)"
      using e51 by (simp add: power_int_def)
    then have "real (2 ^ nat (51 - e)) * u = 2 powi (51 - e) * 2 powi (e - 52)"
      by (simp add: u_def)
    also have "\<dots> = (2::real) powi (51 - e + (e - 52))"
      by (rule power_int_add [symmetric]) simp
    also have "51 - e + (e - 52) = - 1" by simp
    finally have half: "real (2 ^ nat (51 - e)) * u = 1 / 2"
      by (simp add: power_int_minus)
    have "(2::real) ^ nat (e - e') = 2 powi (e - e')"
      using True by (simp add: power_int_def)
    then have "real (2 ^ nat (e - e')) * u' = 2 powi (e - e') * 2 powi (e' - 52)"
      by (simp add: u'_def)
    also have "\<dots> = (2::real) powi (e - e' + (e' - 52))"
      by (rule power_int_add [symmetric]) simp
    also have "e - e' + (e' - 52) = e - 52" by simp
    finally have uu: "real (2 ^ nat (e - e')) * u' = u"
      by (simp add: u_def)
    have "real Y * u' = (real m + real (2 ^ nat (51 - e))) * (real (2 ^ nat (e - e')) * u')"
      by (simp add: Y_def)
    also have "\<dots> = real m * u + real (2 ^ nat (51 - e)) * u"
      unfolding uu by (simp add: algebra_simps)
    also have "\<dots> = s"
      unfolding half by (simp add: s_def vc)
    finally have "real ?p2 / real ?q2 = real Y * 2 powi (binade ?p2 ?q2 - 52)"
      unfolding pq2 u'_def e'_def by simp
    from fl_on_grid [OF p2 q2 this] have "val d = s"
      unfolding dfl pq2 .
    with s_lt show ?thesis by simp
  next
    case False
    have ck: "val c \<le> real k"
    proof (rule ccontr)
      assume "\<not> val c \<le> real k"
      then have kc: "real k < val c" by simp
      define N :: nat where "N = 2 ^ nat (e + 1)"
      have N: "real N = 2 powi (e + 1)"
        using e0 by (simp add: N_def power_int_def)
      have "(2::real) powi e' \<le> s"
        using binade_bounds [OF p2 q2] unfolding pq2 e'_def by simp
      moreover have "(2::real) powi (e + 1) \<le> 2 powi e'"
        using False by (intro power_int_increasing) simp_all
      ultimately have "real N < real k + 1"
        using s_lt N by simp
      moreover have "val c \<le> 2 powi (e + 1)"
        using fl_le_next_power [OF p q] unfolding cfl e_def .
      then have "real k < real N"
        using kc N by simp
      ultimately have "real k < real N" "real N < real (k + 1)"
        by simp_all
      then have "k < N" "N < k + 1"
        by (simp_all only: of_nat_less_iff)
      then show False by simp
    qed
    have "real ?p2 / real ?q2 \<le> real (2 * k + 1) / 2"
      unfolding pq2 using ck by (simp add: s_def)
    from fl_le_half_integer [OF p2 q2 e'51 [unfolded e'_def] this]
    have "val d \<le> real (2 * k + 1) / 2"
      unfolding dfl .
    then show ?thesis by simp
  qed
  have sd: "0 < snd d"
    using fl_char [OF p2 q2] unfolding dfl by blast
  have "fst d div snd d = k"
    using div_from_real_bounds [OF sd, of k "fst d"] lo_d hi_d by (simp add: val_def)
  then show ?thesis
    by (simp add: d_def c_def k_def)
qed

lemma delay_product_exact:
  assumes d0: "0 < tps_denominator a"
    and exact: "1000 * duration f * tps_denominator a < 2 ^ 53"
  shows "val (double_mul (double_mul (1000, 1) (double_of_uint32 (duration f)))
               (double_of_uint32 (tps_denominator a)))
      = real (1000 * duration f * tps_denominator a)
    \<and> 0 < snd (double_mul (double_mul (1000, 1) (double_of_uint32 (duration f)))
               (double_of_uint32 (tps_denominator a)))"
proof -
  define P where "P = 1000 * duration f * tps_denominator a"
  define a1 where "a1 = double_mul (1000, 1) (double_of_uint32 (duration f))"
  define b1 where "b1 = double_mul a1 (double_of_uint32 (tps_denominator a))"
  have "1000 * duration f * 1 \<le> 1000 * duration f * tps_denominator a"
    using d0 by (intro mult_le_mono2) simp
  then have "1000 * duration f \<le> 1000 * duration f * tps_denominator a"
    by (simp only: mult_1_right)
  from this exact have N: "1000 * duration f < 2 ^ 53"
    by (rule le_less_trans)
  have a1: "val a1 = real (1000 * duration f) \<and> 0 < snd a1"
    unfolding a1_def double_mul_def double_of_uint32_def
    using fl_exact [of 1 "1000 * duration f" "1000 * duration f"] N by simp
  have "real (fst a1 * tps_denominator a) / real (snd a1) = val a1 * real (tps_denominator a)"
    by (simp add: val_def)
  also have "\<dots> = real P"
    using a1 by (simp add: P_def)
  finally have "real (fst a1 * tps_denominator a) / real (snd a1) = real P" .
  with a1 exact have "val b1 = real P \<and> 0 < snd b1"
    unfolding b1_def double_mul_def double_of_uint32_def
    using fl_exact [of "snd a1" "fst a1 * tps_denominator a" P] by (simp add: P_def)
  then show ?thesis
    by (simp add: b1_def a1_def P_def)
qed

lemma frame_delay_exact:
  assumes n0: "0 < tps_numerator a" and d0: "0 < tps_denominator a"
    and n32: "tps_numerator a < 2 ^ 32"
    and P52: "1000 * duration f * tps_denominator a < 2 ^ 52"
    and fits: "rounded_delay a f \<le> 2147483647"
  shows "frame_delay a f = Some (rounded_delay a f)"
proof (cases "1000 * duration f * tps_denominator a < tps_numerator a")
  case True
  have "(2::nat) ^ 52 \<le> 2 ^ 53" by simp
  with P52 have 1: "1000 * duration f * tps_denominator a < 2 ^ 53"
    by (rule less_le_trans)
  have "tps_numerator a * 1 \<le> tps_numerator a * 2 ^ 19"
    by (intro mult_le_mono2) simp
  then have "tps_numerator a \<le> 2 ^ 19 * tps_numerator a"
    by (simp only: mult_1_right mult.commute)
  with True have 2: "1000 * duration f * tps_denominator a < 2 ^ 19 * tps_numerator a"
    by (rule less_le_trans)
  show ?thesis
    using n0 d0 n32 1 2 by (rule frame_delay_rounds)
next
  case False
  define P where "P = 1000 * duration f * tps_denominator a"
  define n where "n = tps_numerator a"
  define b1 where "b1 = double_mul (double_mul (1000, 1) (double_of_uint32 (duration f)))
               (double_of_uint32 (tps_denominator a))"
  define d1 where "d1 = double_add (1, 2) (double_div b1 (double_of_uint32 n))"
  have "(2::nat) ^ 52 \<le> 2 ^ 53" by simp
  with P52 have "1000 * duration f * tps_denominator a < 2 ^ 53"
    by (rule less_le_trans)
  from delay_product_exact [OF d0 this] have b: "val b1 = real P" "0 < snd b1"
    by (simp_all add: b1_def P_def)
  have npos: "0 < n" using n0 by (simp add: n_def)
  have big: "n \<le> P" using False by (simp add: n_def P_def)
  have small: "P < 2 ^ 52" using P52 by (simp only: P_def)
  from delay_quotient_large [OF npos b big small]
  have t: "fst d1 div snd d1 = (2 * P + n) div (2 * n)"
    by (simp only: d1_def)
  have fd: "frame_delay a f = double_to_int d1"
    using n0 d0 by (simp add: frame_delay_def d1_def b1_def n_def)
  have r: "rounded_delay a f = int ((2 * P + n) div (2 * n))"
    using n0 by (simp add: rounded_delay_def P_def n_def)
  from fits have "(2 * P + n) div (2 * n) \<le> 2147483647"
    unfolding r by simp
  then show ?thesis
    unfolding fd r by (simp add: double_to_int_def t)
qed

lemma product_below_limit:
  assumes "tps_denominator a \<le> 1024" and "duration f < 2 ^ 32"
  shows "1000 * duration f * tps_denominator a < 2 ^ 52"
proof -
  have "1000 * duration f * tps_denominator a \<le> 1000 * duration f * 1024"
    using assms(1) by (rule mult_le_mono2)
  also have "\<dots> < 2 ^ 52"
    using assms(2) by simp
  finally show ?thesis .
qed

lemma frame_delay_in_range:
  assumes "delay_in_range a f"
  shows "frame_delay a f = Some (rounded_delay a f)"
proof (cases "0 < tps_numerator a \<and> 0 < tps_denominator a")
  case True
  with assms show ?thesis
    by (intro frame_delay_exact) (simp_all add: delay_in_range_def)
next
  case False
  then show ?thesis
    by (auto simp: frame_delay_def rounded_delay_def)
qed

lemma count_loop_in_range:
  assumes "\<forall>ev\<in>set evs. fe_status ev = JXL_DEC_FRAME \<and> fe_header_status ev = JXL_DEC_SUCCESS
      \<and> delay_in_range a (fe_header ev)"
  shows "count_loop a evs delays
    = FramesCounted (delays @ map (rounded_delay a) (frames_visited evs))"
  using assms
proof (induction evs arbitrary: delays)
  case Nil
  show ?case by simp
next
  case (Cons ev evs)
  from Cons.prems have ev: "fe_status ev = JXL_DEC_FRAME" "fe_header_status ev = JXL_DEC_SUCCESS"
    and r: "delay_in_range a (fe_header ev)"
    and rest: "\<forall>ev\<in>set evs. fe_status ev = JXL_DEC_FRAME
      \<and> fe_header_status ev = JXL_DEC_SUCCESS \<and> delay_in_range a (fe_header ev)"
    by simp_all
  have d: "frame_delay a (fe_header ev) = Some (rounded_delay a (fe_header ev))"
    using r by (rule frame_delay_in_range)
  show ?case
    by (simp add: ev d Cons.IH [OF rest])
qed

lemma rounded_delay_zero:
  "tps_numerator a = 0 \<or> tps_denominator a = 0 \<Longrightarrow> rounded_delay a f = 0"
  by (auto simp: rounded_delay_def)

lemma count_frames_counted:
  assumes "have_animation (m_basicinfo h)"
    and "count_loop (animation (m_basicinfo h)) evs (m_framedelays h) = FramesCounted ds"
    and "ds \<noteq> []"
  shows "fst (count_frames evs h)" and "m_framedelays (snd (count_frames evs h)) = ds"
  using assms by (simp_all add: count_frames_def)

text \<open>
  The bound \<open>2 ^ 52\<close> on the product cannot be dropped. The fields of the tick rate are
  uint32 in the struct that the handler reads; with a denominator of 1048576, which
  is more than a denominator of at most 1024 allows, 7079986 ticks at
  8388609 / 1048576 ticks a second have a product above \<open>2 ^ 52\<close>: the exact quotient is
  just below 884998144.5, the double nearest to it is 884998144.5, and the loop
  appends 884998145 where rounding the exact quotient gives 884998144.
\<close>

lemma count_loop_delay_not_rounded:
  "count_loop eight_ticks [frame_of 7079986 True] [] = FramesCounted [884998145]
   \<and> rounded_delay eight_ticks (fe_header (frame_of 7079986 True)) = 884998144"
  by (simp add: eight_ticks_def frame_of_def rounded_delay_def
      frame_delay_def double_add_def double_div_def double_mul_def
      double_of_uint32_def double_to_int_def fl_def binade_def bitlength.simps
      round_half_even_def Let_def)

text \<open>
  For every animated JXL input whose decoder reports frames with readable headers and
  whose delays are in range (\<open>1000 * duration * tps_denominator\<close> below \<open>2 ^ 52\<close> and the
  rounded delay at most 2147483647 when both parts of the tick rate are positive), the
  frame-counting loop appends, for each frame header up to and including the first
  that marks \<open>is_last\<close>, the delay \<open>1000 * duration * tps_denominator / tps_numerator\<close>
  rounded to the nearest integer, and appends 0 when \<open>tps_numerator\<close> or
  \<open>tps_denominator\<close> is 0; these delays are the \<open>frame_delays\<close> of the handler after
  the count.
\<close>

theorem count_loop_delays:
  assumes "frames_in_range a evs"
  shows "count_loop a evs delays
      = FramesCounted (delays @ map (rounded_delay a) (frames_visited evs))
    \<and> (tps_numerator a = 0 \<or> tps_denominator a = 0 \<longrightarrow>
         count_loop a evs delays
           = FramesCounted (delays @ map (\<lambda>f. 0) (frames_visited evs)))
    \<and> (have_animation (m_basicinfo h) \<and> animation (m_basicinfo h) = a
          \<and> m_framedelays h = delays \<and> frames_visited evs \<noteq> [] \<longrightarrow>
         fst (count_frames evs h)
         \<and> m_framedelays (snd (count_frames evs h))
             = delays @ map (rounded_delay a) (frames_visited evs))"
proof (intro conjI impI)
  show loop: "count_loop a evs delays
      = FramesCounted (delays @ map (rounded_delay a) (frames_visited evs))"
    using assms unfolding frames_in_range_def by (rule count_loop_in_range)
  {
    assume "tps_numerator a = 0 \<or> tps_denominator a = 0"
    then have "map (rounded_delay a) (frames_visited evs) = map (\<lambda>f. 0) (frames_visited evs)"
      by (simp add: rounded_delay_zero)
    with loop show "count_loop a evs delays
           = FramesCounted (delays @ map (\<lambda>f. 0) (frames_visited evs))"
      by simp
  }
  {
    assume c: "have_animation (m_basicinfo h) \<and> animation (m_basicinfo h) = a
          \<and> m_framedelays h = delays \<and> frames_visited evs \<noteq> []"
    then have l: "count_loop (animation (m_basicinfo h)) evs (m_framedelays h)
        = FramesCounted (delays @ map (rounded_delay a) (frames_visited evs))"
      using loop by simp
    have n: "delays @ map (rounded_delay a) (frames_visited evs) \<noteq> []"
      using c by simp
    from c have a: "have_animation (m_basicinfo h)"
      by simp
    show "fst (count_frames evs h)"
      using a l n by (rule count_frames_counted(1))
    show "m_framedelays (snd (count_frames evs h))
             = delays @ map (rounded_delay a) (frames_visited evs)"
      using a l n by (rule count_frames_counted(2))
  }
qed

theorem count_loop_delays_witness:
  "frames_in_range milliseconds three_frames
   \<and> count_loop milliseconds three_frames [] = FramesCounted [100, 200, 300]
   \<and> have_animation (m_basicinfo (parsed (info_of 4 2 True 1000 1)))
   \<and> animation (m_basicinfo (parsed (info_of 4 2 True 1000 1))) = milliseconds
   \<and> m_framedelays (parsed (info_of 4 2 True 1000 1)) = []
   \<and> frames_visited three_frames \<noteq> []
   \<and> fst (count_frames three_frames (parsed (info_of 4 2 True 1000 1)))
   \<and> m_framedelays (snd (count_frames three_frames (parsed (info_of 4 2 True 1000 1))))
       = [100, 200, 300]
   \<and> frames_in_range stopped_clock three_frames
   \<and> tps_numerator stopped_clock = 0
   \<and> count_loop stopped_clock three_frames [] = FramesCounted [0, 0, 0]"
proof -
  have r: "frames_in_range milliseconds three_frames"
    by (simp add: frames_in_range_def three_frames_def frame_of_def delay_in_range_def
        rounded_delay_def milliseconds_def)
  have z: "frames_in_range stopped_clock three_frames"
    by (simp add: frames_in_range_def three_frames_def frame_of_def delay_in_range_def
        rounded_delay_def stopped_clock_def)
  have v: "map (rounded_delay milliseconds) (frames_visited three_frames) = [100, 200, 300]"
    by (simp add: three_frames_def frame_of_def rounded_delay_def milliseconds_def)
  have f: "frames_visited three_frames \<noteq> []"
    by (simp add: three_frames_def frame_of_def)
  have l: "length (frames_visited three_frames) = 3"
    by (simp add: three_frames_def frame_of_def)
  have h: "have_animation (m_basicinfo (parsed (info_of 4 2 True 1000 1)))"
    "animation (m_basicinfo (parsed (info_of 4 2 True 1000 1))) = milliseconds"
    "m_framedelays (parsed (info_of 4 2 True 1000 1)) = []"
    by (simp_all add: parsed_def info_of_def milliseconds_def fresh_def new_handler_def)
  have n: "tps_numerator stopped_clock = 0"
    by (simp add: stopped_clock_def)
  have m: "map (\<lambda>f. 0::int) (frames_visited three_frames) = [0, 0, 0]"
    by (simp add: three_frames_def frame_of_def)
  note a = count_loop_delays [OF r, of "[]" "parsed (info_of 4 2 True 1000 1)"]
  note b = count_loop_delays [OF z, of "[]" "parsed (info_of 4 2 True 1000 1)"]
  from a h f v have 1: "count_loop milliseconds three_frames [] = FramesCounted [100, 200, 300]"
    "fst (count_frames three_frames (parsed (info_of 4 2 True 1000 1)))"
    "m_framedelays (snd (count_frames three_frames (parsed (info_of 4 2 True 1000 1))))
       = [100, 200, 300]"
    by simp_all
  from b have "tps_numerator stopped_clock = 0 \<or> tps_denominator stopped_clock = 0 \<longrightarrow>
      count_loop stopped_clock three_frames []
        = FramesCounted ([] @ map (\<lambda>f. 0) (frames_visited three_frames))"
    by (rule conjunct2 [THEN conjunct1])
  with n m have 2: "count_loop stopped_clock three_frames [] = FramesCounted [0, 0, 0]"
    by simp
  show ?thesis
    using r z h f n 1 2 by simp
qed

text \<open>
  C2. The loop appends \<open>1000 * duration * tps_denominator / tps_numerator\<close>, rounded,
  only while that value fits an int. At 1000 ticks a second a frame of 2147483647
  ticks gets the delay 2147483647. For a frame of 2147483648 ticks the delay asked for
  is 2147483648; the sum \<open>0.5 + 2147483648.0\<close> is above the largest int, the cast
  \<^verbatim>\<open>(int)\<close> of it is undefined behaviour, and the loop and the count end there. The
  frame header holds the duration as a uint32, so a file can carry such a frame.
\<close>

theorem frame_delay_overflows:
  "frame_delay milliseconds \<lparr>duration = 2147483647, is_last = True\<rparr> = Some 2147483647
   \<and> rounded_delay milliseconds \<lparr>duration = 2147483648, is_last = True\<rparr> = 2147483648
   \<and> frame_delay milliseconds \<lparr>duration = 2147483648, is_last = True\<rparr> = None
   \<and> count_loop milliseconds [frame_of 2147483648 True] [] = FramesUndefined
   \<and> count_frames [frame_of 2147483648 True] (parsed (info_of 4 2 True 1000 1))
       = (False, (parsed (info_of 4 2 True 1000 1))\<lparr>undefined_behaviour := True\<rparr>)"
proof -
  have 1: "frame_delay \<lparr>tps_numerator = 1000, tps_denominator = Suc 0, num_loops = 0\<rparr>
      \<lparr>duration = 2147483647, is_last = True\<rparr> = Some 2147483647"
    by (simp add: frame_delay_def double_add_def double_div_def double_mul_def
        double_of_uint32_def double_to_int_def fl_def binade_def bitlength.simps
        round_half_even_def Let_def)
  have 2: "frame_delay \<lparr>tps_numerator = 1000, tps_denominator = Suc 0, num_loops = 0\<rparr>
      \<lparr>duration = 2147483648, is_last = True\<rparr> = None"
    by (simp add: frame_delay_def double_add_def double_div_def double_mul_def
        double_of_uint32_def double_to_int_def fl_def binade_def bitlength.simps
        round_half_even_def Let_def)
  have 3: "rounded_delay milliseconds \<lparr>duration = 2147483648, is_last = True\<rparr> = 2147483648"
    by (simp add: rounded_delay_def milliseconds_def)
  have 4: "count_loop milliseconds [frame_of 2147483648 True] [] = FramesUndefined"
    by (simp add: milliseconds_def frame_of_def 2)
  have 5: "count_frames [frame_of 2147483648 True] (parsed (info_of 4 2 True 1000 1))
       = (False, (parsed (info_of 4 2 True 1000 1))\<lparr>undefined_behaviour := True\<rparr>)"
    by (simp add: count_frames_def parsed_def info_of_def fresh_def new_handler_def
        frame_of_def 2)
  show ?thesis
    using 1 2 3 4 5 by (simp add: milliseconds_def)
qed

section \<open>Properties of the frame count\<close>

lemma keeps_frames_refl: "keeps_frames h h"
  by (simp add: keeps_frames_def)

lemma keeps_frames_trans: "keeps_frames h h1 \<Longrightarrow> keeps_frames h1 h2 \<Longrightarrow> keeps_frames h h2"
  by (auto simp: keeps_frames_def)

lemma keeps_frames_invariant:
  "keeps_frames h h' \<Longrightarrow> frames_invariant h \<Longrightarrow> frames_invariant h'"
  by (auto simp: keeps_frames_def frames_invariant_def)

lemma rewind_keeps: "keeps_frames h (snd (rewind rw h))"
  by (simp add: rewind_def keeps_frames_def Let_def)

lemma extractBox_keeps: "keeps_frames h (snd (snd (extractBox b eb out0 n h)))"
  by (simp add: extractBox_def keeps_frames_def Let_def split: box_loop.splits)

lemma keeps_frames_Error:
  "keeps_frames h0 h \<Longrightarrow> keeps_frames h0 (h\<lparr>m_parseState := ParseJpegXLError\<rparr>)"
  by (simp add: keeps_frames_def)

lemma keeps_frames_extractBox:
  "keeps_frames h0 h \<Longrightarrow> keeps_frames h0 (snd (snd (extractBox b eb out0 n h)))"
  using extractBox_keeps keeps_frames_trans by blast

lemma decodeContainer_loop_keeps:
  "keeps_frames h0 h \<Longrightarrow> keeps_frames h0 (snd (decodeContainer_loop b len evs se sx h))"
proof (induction evs arbitrary: se sx h)
  case Nil
  then show ?case by simp
next
  case (Cons ev evs)
  then show ?case
    by (simp add: keeps_frames_Error keeps_frames_extractBox)
qed

lemma decodeContainer_keeps: "keeps_frames h (snd (decodeContainer b sc dc h))"
  by (simp add: decodeContainer_def keeps_frames_refl keeps_frames_Error
      decodeContainer_loop_keeps)

lemma cmyk_scan_keeps:
  "keeps_frames h0 h \<Longrightarrow> keeps_frames h0 (snd (cmyk_scan info cs idxs af h))"
proof (induction idxs arbitrary: af h)
  case Nil
  then show ?case by simp
next
  case (Cons index rest)
  have a: "keeps_frames h0 (h\<lparr>m_alpha_channel_id := index\<rparr>)"
    using Cons.prems by (simp add: keeps_frames_def)
  have c: "keeps_frames h0 (h\<lparr>m_isCMYK := True, m_cmyk_channel_id := index\<rparr>)"
    "keeps_frames h0 (h\<lparr>m_isCMYK := True, m_cmyk_channel_id := index,
        m_parseState := ParseJpegXLError\<rparr>)"
    "keeps_frames h0 (h\<lparr>m_isCMYK := True, m_cmyk_channel_id := index,
        m_alpha_channel_id := x\<rparr>)" for x
    using Cons.prems by (simp_all add: keeps_frames_def)
  show ?case
    using Cons.prems a c
    by (simp add: Cons.IH keeps_frames_Error split: option.splits)
qed

lemma detect_cmyk_keeps: "keeps_frames h (snd (detect_cmyk b cf h))"
  by (simp add: detect_cmyk_def cmyk_scan_keeps keeps_frames_refl)

lemma count_loop_grows:
  "count_loop a evs delays = FramesCounted ds \<Longrightarrow> \<exists>more. ds = delays @ more"
proof (induction evs arbitrary: delays)
  case Nil
  then show ?case by simp
next
  case (Cons ev evs)
  then show ?case
    by (fastforce split: if_splits option.splits)
qed

lemma count_frames_invariant:
  assumes "m_parseState h = ParseJpegXLBasicInfoParsed" "m_framedelays h = []"
    and "count_frames evs h = (True, h')"
  shows "m_parseState h' = ParseJpegXLBasicInfoParsed \<and> m_framedelays h' \<noteq> []
    \<and> (\<not> have_animation (m_basicinfo h') \<longrightarrow> length (m_framedelays h') = 1)"
  using assms
  by (auto simp: count_frames_def split: if_splits frame_loop.splits)

lemma rewind_fails: "\<not> fst (rewind rw h) \<Longrightarrow> m_parseState (snd (rewind rw h)) = ParseJpegXLError"
  by (simp add: rewind_def Let_def split: if_splits)

lemma extractBox_fails:
  "\<not> fst (extractBox b eb out0 n h)
    \<Longrightarrow> m_parseState (snd (snd (extractBox b eb out0 n h))) = ParseJpegXLError"
  by (simp add: extractBox_def Let_def split: if_splits box_loop.splits)

lemma decodeContainer_loop_fails:
  "\<not> fst (decodeContainer_loop b len evs se sx h)
    \<Longrightarrow> m_parseState (snd (decodeContainer_loop b len evs se sx h)) = ParseJpegXLError"
proof (induction evs arbitrary: se sx h)
  case Nil
  then show ?case by simp
next
  case (Cons ev evs)
  then show ?case
    by (cases se; cases sx) (auto simp: extractBox_fails split: if_splits)
qed

lemma decodeContainer_fails:
  "\<not> fst (decodeContainer b sc dc h)
    \<Longrightarrow> m_parseState (snd (decodeContainer b sc dc h)) = ParseJpegXLError"
  by (simp add: decodeContainer_def decodeContainer_loop_fails split: if_splits)

lemma cmyk_scan_fails:
  "\<not> fst (cmyk_scan info cs idxs af h)
    \<Longrightarrow> m_parseState (snd (cmyk_scan info cs idxs af h)) = ParseJpegXLError"
proof (induction idxs arbitrary: af h)
  case Nil
  then show ?case by simp
next
  case (Cons index rest)
  then show ?case
    by (cases cs) (auto split: if_splits option.splits)
qed

lemma detect_cmyk_fails:
  "\<not> fst (detect_cmyk b cf h)
    \<Longrightarrow> m_parseState (snd (detect_cmyk b cf h)) = ParseJpegXLError"
  by (simp add: detect_cmyk_def cmyk_scan_fails split: if_splits)

lemma count_frames_fails:
  assumes "m_parseState h = ParseJpegXLBasicInfoParsed" "m_framedelays h = []"
    and "\<not> fst (count_frames evs h)"
  shows "frames_invariant (snd (count_frames evs h))"
  using assms
  by (auto simp: count_frames_def frames_invariant_def split: if_splits frame_loop.splits)

lemma countALLFrames_invariant:
  assumes inv: "frames_invariant h"
  shows "frames_invariant (snd (countALLFrames b l h))"
proof (cases "m_parseState h = ParseJpegXLBasicInfoParsed
    \<and> cf_process (l_countALLFrames l) = JXL_DEC_COLOR_ENCODING")
  case False
  with inv show ?thesis
    by (auto simp: countALLFrames_def frames_invariant_def Let_def)
next
  case True
  let ?cf = "l_countALLFrames l"
  from True inv have empty: "m_framedelays h = []"
    by (simp add: frames_invariant_def)
  obtain ok1 h1 where 1: "count_frames (cf_frames ?cf) h = (ok1, h1)"
    by force
  obtain ok2 h2 where 2: "detect_cmyk b ?cf h1 = (ok2, h2)"
    by force
  obtain ok3 h3 where 3:
    "(if JXL_DECODE_BOXES_DISABLED b then (True, h2)
      else decodeContainer b (JxlSignatureCheck l) (cf_container ?cf) h2) = (ok3, h3)"
    by force
  obtain ok4 h4 where 4: "rewind (cf_rewind ?cf) h3 = (ok4, h4)"
    by force
  have unfolded: "countALLFrames b l h =
      (if \<not> ok1 then (False, h1) else if \<not> ok2 then (False, h2)
       else if \<not> ok3 then (False, h3) else if \<not> ok4 then (False, h4)
       else (case m_framedelays h4 of
               [] \<Rightarrow> (False, h4\<lparr>undefined_behaviour := True\<rparr>)
             | delay # _ \<Rightarrow> (True, h4\<lparr>m_next_image_delay := delay,
                                       m_parseState := ParseJpegXLSuccess\<rparr>)))"
    using True by (simp add: countALLFrames_def Let_def 1 2 3 4)
  show ?thesis
  proof (cases ok1)
    case False
    with count_frames_fails [of h "cf_frames ?cf"] True empty 1 unfolded show ?thesis
      by simp
  next
    case ok1: True
    from count_frames_invariant [of h "cf_frames ?cf" h1] True empty 1 ok1
    have h1: "m_framedelays h1 \<noteq> []"
      "\<not> have_animation (m_basicinfo h1) \<longrightarrow> length (m_framedelays h1) = 1"
      by simp_all
    have k2: "keeps_frames h1 h2"
      using detect_cmyk_keeps [of h1 b ?cf] 2 by simp
    have k3: "keeps_frames h2 h3"
      using decodeContainer_keeps [of h2 b "JxlSignatureCheck l" "cf_container ?cf"] 3
      by (auto simp: keeps_frames_refl split: if_splits)
    have k4: "keeps_frames h3 h4"
      using rewind_keeps [of h3 "cf_rewind ?cf"] 4 by simp
    have f2: "\<not> ok2 \<Longrightarrow> m_parseState h2 = ParseJpegXLError"
      using detect_cmyk_fails [of b ?cf h1] 2 by simp
    have f3: "\<not> ok3 \<Longrightarrow> m_parseState h3 = ParseJpegXLError"
      using decodeContainer_fails [of b "JxlSignatureCheck l" "cf_container ?cf" h2] 3
      by (auto split: if_splits)
    have f4: "\<not> ok4 \<Longrightarrow> m_parseState h4 = ParseJpegXLError"
      using rewind_fails [of "cf_rewind ?cf" h3] 4 by simp
    have same: "m_framedelays h4 = m_framedelays h1" "m_basicinfo h4 = m_basicinfo h1"
      using k2 k3 k4 by (simp_all add: keeps_frames_def)
    show ?thesis
      using ok1 unfolded f2 f3 f4 h1 same
      by (auto simp: frames_invariant_def split: list.splits)
  qed
qed

lemma ensureDecoder_invariant:
  assumes "frames_invariant h" "m_parseState h = ParseJpegXLNotParsed"
  shows "frames_invariant (snd (ensureDecoder b l h))"
proof -
  obtain data dev where ra: "readAll (device h) = (data, dev)"
    by force
  show ?thesis
    using assms by (simp add: ensureDecoder_def ra Let_def frames_invariant_def)
qed

lemma ensureParsed_invariant:
  "frames_invariant h \<Longrightarrow> frames_invariant (snd (ensureParsed b l h))"
  by (cases "m_parseState h") (simp_all add: ensureParsed_def ensureDecoder_invariant)

lemma ensureALLCounted_invariant:
  assumes "frames_invariant h"
  shows "frames_invariant (snd (ensureALLCounted b l h))"
proof -
  obtain ok h1 where p: "ensureParsed b l h = (ok, h1)"
    by force
  with ensureParsed_invariant [OF assms, of b l] have "frames_invariant h1"
    by simp
  then show ?thesis
    using countALLFrames_invariant [of h1 b l]
    by (simp add: ensureALLCounted_def p)
qed

lemma ensureALLCounted_True_state:
  "fst (ensureALLCounted b l h) \<Longrightarrow>
     m_parseState (snd (ensureALLCounted b l h)) = ParseJpegXLSuccess
     \<or> m_parseState (snd (ensureALLCounted b l h)) = ParseJpegXLFinished"
  using ensureALLCounted_state [of b l h "snd (ensureALLCounted b l h)"]
  by (cases "ensureALLCounted b l h") simp

lemma counted_update_invariant:
  assumes "frames_invariant h"
    and "m_parseState h = ParseJpegXLSuccess \<or> m_parseState h = ParseJpegXLFinished"
    and "keeps_frames h h'
       \<or> (m_framedelays h' = m_framedelays h \<and> m_basicinfo h' = m_basicinfo h
           \<and> (m_parseState h' = ParseJpegXLSuccess \<or> m_parseState h' = ParseJpegXLFinished))"
  shows "frames_invariant h'"
  using assms by (auto simp: frames_invariant_def keeps_frames_def)

lemma decode_one_frame_invariant:
  assumes inv: "frames_invariant h"
    and st: "m_parseState h = ParseJpegXLSuccess \<or> m_parseState h = ParseJpegXLFinished"
  shows "frames_invariant (snd (decode_one_frame l h))"
proof (rule counted_update_invariant [OF inv st])
  let ?h' = "snd (decode_one_frame l h)"
  have k: "keeps_frames h0 (snd (rewind rw h0))" for h0 :: "'a QJpegXLHandler" and rw
    by (rule rewind_keeps)
  show "keeps_frames h ?h'
     \<or> (m_framedelays ?h' = m_framedelays h \<and> m_basicinfo ?h' = m_basicinfo h
         \<and> (m_parseState ?h' = ParseJpegXLSuccess \<or> m_parseState ?h' = ParseJpegXLFinished))"
  proof (cases "l_pixels l")
    case (Failed x)
    then show ?thesis
      by (cases x) (simp_all add: decode_one_frame_def keeps_frames_def)
  next
    case (Decoded img)
    let ?h3 = "h\<lparr>m_current_image := img,
        m_next_image_delay := m_framedelays h ! nat (m_currentimage_index h),
        m_previousimage_index := m_currentimage_index h,
        m_currentimage_index := m_currentimage_index h + 1\<rparr>"
    have "keeps_frames ?h3 (snd (rewind (l_rewind l) ?h3))"
      by (rule rewind_keeps)
    then have r: "m_framedelays (snd (rewind (l_rewind l) ?h3)) = m_framedelays h"
      "m_basicinfo (snd (rewind (l_rewind l) ?h3)) = m_basicinfo h"
      "m_parseState (snd (rewind (l_rewind l) ?h3)) = m_parseState h
        \<or> m_parseState (snd (rewind (l_rewind l) ?h3)) = ParseJpegXLError"
      by (simp_all add: keeps_frames_def)
    show ?thesis
      using Decoded r
      by (auto simp: decode_one_frame_def Let_def keeps_frames_def split: prod.splits)
  qed
qed

lemma jumpToNextImage_invariant:
  assumes inv: "frames_invariant h"
  shows "frames_invariant (snd (jumpToNextImage b l h))"
proof -
  obtain ok h1 where c: "ensureALLCounted b l h = (ok, h1)"
    by force
  have inv1: "frames_invariant h1"
    using ensureALLCounted_invariant [OF inv, of b l] c by simp
  show ?thesis
  proof (cases ok)
    case False
    with c inv1 show ?thesis by (simp add: jumpToNextImage_def)
  next
    case True
    with c have st: "m_parseState h1 = ParseJpegXLSuccess \<or> m_parseState h1 = ParseJpegXLFinished"
      using ensureALLCounted_state [of b l h h1] by simp
    let ?h2 = "h1\<lparr>m_currentimage_index := m_currentimage_index h1 + 1\<rparr>"
    have "keeps_frames ?h2 (snd (rewind (l_rewind l) ?h2))"
      by (rule rewind_keeps)
    then have r: "m_framedelays (snd (rewind (l_rewind l) ?h2)) = m_framedelays h1"
      "m_basicinfo (snd (rewind (l_rewind l) ?h2)) = m_basicinfo h1"
      "m_parseState (snd (rewind (l_rewind l) ?h2)) = m_parseState h1
        \<or> m_parseState (snd (rewind (l_rewind l) ?h2)) = ParseJpegXLError"
      by (simp_all add: keeps_frames_def)
    have "jumpToNextImage b l h = jumpToNextImage b l h1"
      using c True st by (simp add: jumpToNextImage_def ensureALLCounted_counted)
    moreover have "frames_invariant (snd (jumpToNextImage b l h1))"
      by (rule counted_update_invariant [OF inv1 st])
        (use r in \<open>auto simp: jumpToNextImage_counted [OF st] keeps_frames_def\<close>)
    ultimately show ?thesis by simp
  qed
qed

lemma jumpToImage_invariant:
  assumes inv: "frames_invariant h"
  shows "frames_invariant (snd (jumpToImage b l n h))"
proof -
  obtain ok h1 where c: "ensureALLCounted b l h = (ok, h1)"
    by force
  have inv1: "frames_invariant h1"
    using ensureALLCounted_invariant [OF inv, of b l] c by simp
  show ?thesis
  proof (cases ok)
    case False
    with c inv1 show ?thesis by (simp add: jumpToImage_def)
  next
    case True
    with c have st: "m_parseState h1 = ParseJpegXLSuccess \<or> m_parseState h1 = ParseJpegXLFinished"
      using ensureALLCounted_state [of b l h h1] by simp
    have "keeps_frames h1 (snd (rewind (l_rewind l) h1))"
      by (rule rewind_keeps)
    then have r: "m_framedelays (snd (rewind (l_rewind l) h1)) = m_framedelays h1"
      "m_basicinfo (snd (rewind (l_rewind l) h1)) = m_basicinfo h1"
      "m_parseState (snd (rewind (l_rewind l) h1)) = m_parseState h1
        \<or> m_parseState (snd (rewind (l_rewind l) h1)) = ParseJpegXLError"
      by (simp_all add: keeps_frames_def)
    show ?thesis
      by (rule counted_update_invariant [OF inv1 st])
        (use r c True in \<open>auto simp: jumpToImage_def keeps_frames_def split: prod.splits\<close>)
  qed
qed

lemma read_invariant:
  assumes inv: "frames_invariant h"
  shows "frames_invariant (snd (snd (read b l h)))"
proof -
  obtain ok h1 where c: "ensureALLCounted b l h = (ok, h1)"
    by force
  have inv1: "frames_invariant h1"
    using ensureALLCounted_invariant [OF inv, of b l] c by simp
  show ?thesis
  proof (cases ok)
    case False
    with c inv1 show ?thesis by (simp add: read_def)
  next
    case True
    with c have st: "m_parseState h1 = ParseJpegXLSuccess \<or> m_parseState h1 = ParseJpegXLFinished"
      using ensureALLCounted_state [of b l h h1] by simp
    show ?thesis
      using c True jumpToNextImage_invariant [OF inv1, of b l]
        decode_one_frame_invariant [OF inv1 st, of l]
      by (auto simp: read_def split: prod.splits)
  qed
qed

lemma imageCount_invariant:
  assumes inv: "frames_invariant h"
  shows "frames_invariant (snd (imageCount b l h))"
proof -
  obtain ok h1 where p: "ensureParsed b l h = (ok, h1)"
    by force
  have inv1: "frames_invariant h1"
    using ensureParsed_invariant [OF inv, of b l] p by simp
  obtain ok2 h2 where c: "ensureALLCounted b l h1 = (ok2, h2)"
    by force
  have inv2: "frames_invariant h2"
    using ensureALLCounted_invariant [OF inv1, of b l] c by simp
  show ?thesis
    using p c inv1 inv2
    by (simp add: imageCount_def Let_def)
qed

lemma nextImageDelay_invariant:
  "frames_invariant h \<Longrightarrow> frames_invariant (snd (nextImageDelay b l h))"
  using ensureALLCounted_invariant [of h b l]
  by (auto simp: nextImageDelay_def split: prod.splits)

lemma loopCount_invariant:
  "frames_invariant h \<Longrightarrow> frames_invariant (snd (loopCount b l h))"
  using ensureParsed_invariant [of h b l]
  by (auto simp: loopCount_def split: prod.splits)

lemma setOption_invariant:
  "frames_invariant h \<Longrightarrow> frames_invariant (setOption b opt v h)"
  by (cases opt) (simp_all add: setOption_def frames_invariant_def)

lemma step_invariant: "frames_invariant h \<Longrightarrow> frames_invariant (step b c h)"
proof (cases c)
  case Call_write
  assume "frames_invariant h"
  with Call_write show ?thesis by (simp add: frames_invariant_def)
qed (simp_all add: read_invariant jumpToNextImage_invariant jumpToImage_invariant
      imageCount_invariant nextImageDelay_invariant loopCount_invariant
      ensureParsed_invariant setOption_invariant)

text \<open>Every handler that calls can make of a new one satisfies the invariant.\<close>

lemma reachable_invariant: "reachable b d h \<Longrightarrow> frames_invariant h"
proof (induction rule: reachable.induct)
  case (reachable_new info img)
  show ?case by (simp add: frames_invariant_def new_handler_def)
next
  case (reachable_step h c)
  then show ?case by (simp add: step_invariant)
qed

lemma frame_delay_100:
  "frame_delay \<lparr>tps_numerator = 1000, tps_denominator = Suc 0, num_loops = 0\<rparr>
     \<lparr>duration = 100, is_last = True\<rparr> = Some 100"
  by (simp add: frame_delay_def double_add_def double_div_def double_mul_def
      double_of_uint32_def double_to_int_def fl_def binade_def bitlength.simps
      round_half_even_def Let_def)

lemma countALLFrames_downgraded:
  "countALLFrames build64 (lib_of single_frame_animation [frame_of 100 True] img)
     (parsed single_frame_animation) =
    (True, (parsed single_frame_animation)
       \<lparr>m_framedelays := [100],
        m_basicinfo := single_frame_animation\<lparr>have_animation := False\<rparr>,
        m_currentimage_index := 0,
        m_next_image_delay := 100, m_parseState := ParseJpegXLSuccess\<rparr>)"
  by (simp add: countALLFrames_def count_frames_def detect_cmyk_def decodeContainer_def
      rewind_def rewind_ok_def lib_of_def parsed_def build64_def fresh_def new_handler_def
      single_frame_animation_def info_of_def frame_of_def frame_delay_100)

lemma downgraded_state:
  "m_parseState downgraded = ParseJpegXLSuccess"
  "\<not> have_animation (m_basicinfo downgraded)"
  "m_framedelays downgraded = [100]"
proof -
  have p: "ensureParsed build64 (lib_of single_frame_animation [frame_of 100 True] 0) fresh
      = (True, parsed single_frame_animation)"
    by (rule ensureParsed_fresh) (simp_all add: single_frame_animation_def info_of_def)
  have s: "m_parseState (parsed single_frame_animation) = ParseJpegXLBasicInfoParsed"
    by (simp add: parsed_def)
  have c: "ensureALLCounted build64 (lib_of single_frame_animation [frame_of 100 True] 0) fresh
      = (True, (parsed single_frame_animation)
       \<lparr>m_framedelays := [100],
        m_basicinfo := single_frame_animation\<lparr>have_animation := False\<rparr>,
        m_currentimage_index := 0,
        m_next_image_delay := 100, m_parseState := ParseJpegXLSuccess\<rparr>)"
    by (simp add: ensureALLCounted_def p s countALLFrames_downgraded)
  show "m_parseState downgraded = ParseJpegXLSuccess"
    "\<not> have_animation (m_basicinfo downgraded)"
    "m_framedelays downgraded = [100]"
    by (simp_all add: downgraded_def nextImageDelay_def c)
qed

lemma downgraded_reachable: "reachable build64 codestream_device downgraded"
  unfolding downgraded_def fresh_def
  by (rule reachable_step) (rule reachable_new)

text \<open>
  A file marked as animation at 1000 ticks a second whose only frame lasts 100 ticks:
  after the count \<open>have_animation\<close> is false and the only entry of \<open>frame_delays\<close>
  is 100. Only the flag is changed by the downgrade, the entry stays.
\<close>

theorem downgraded_animation_keeps_its_delay:
  "reachable build64 codestream_device downgraded
   \<and> m_parseState downgraded = ParseJpegXLSuccess
   \<and> \<not> have_animation (m_basicinfo downgraded)
   \<and> m_framedelays downgraded = [100]"
  by (simp add: downgraded_reachable downgraded_state)

lemma count_loop_single:
  assumes "count_loop a evs [] = FramesCounted [delay]"
  shows "evs \<noteq> [] \<and> frame_delay a (fe_header (hd evs)) = Some delay"
proof (cases evs)
  case Nil
  with assms show ?thesis by simp
next
  case (Cons ev rest)
  show ?thesis
  proof (cases "frame_delay a (fe_header ev)")
    case None
    with assms Cons show ?thesis by (simp split: if_splits)
  next
    case (Some v)
    show ?thesis
    proof (cases "is_last (fe_header ev)")
      case True
      with assms Cons Some show ?thesis by (simp split: if_splits)
    next
      case False
      with assms Cons Some have "count_loop a rest [v] = FramesCounted [delay]"
        by (simp split: if_splits)
      from count_loop_grows [OF this] have "v = delay"
        by auto
      with Cons Some show ?thesis by simp
    qed
  qed
qed

lemma count_frames_downgrade:
  assumes "have_animation (m_basicinfo g)" "m_framedelays g = []"
    and "fst (count_frames evs g)"
    and "\<not> have_animation (m_basicinfo (snd (count_frames evs g)))"
  shows "evs \<noteq> []
    \<and> (\<exists>delay. frame_delay (animation (m_basicinfo g)) (fe_header (hd evs)) = Some delay
          \<and> m_framedelays (snd (count_frames evs g)) = [delay])"
proof (cases "count_loop (animation (m_basicinfo g)) evs []")
  case (FramesCounted ds)
  with assms have "length ds = 1" and m: "m_framedelays (snd (count_frames evs g)) = ds"
    by (auto simp: count_frames_def split: if_splits)
  then obtain delay where ds: "ds = [delay]"
    by (cases ds) auto
  from count_loop_single [of "animation (m_basicinfo g)" evs delay] FramesCounted ds m
  show ?thesis by simp
next
  case (FramesFailed ds)
  with assms show ?thesis by (simp add: count_frames_def)
next
  case FramesUndefined
  with assms show ?thesis by (simp add: count_frames_def)
qed

text \<open>
  C3. In every state reachable after frame counting succeeds (Success or Finished),
  if \<open>have_animation\<close> is false then \<open>frame_delays\<close> has exactly one entry and
  \<open>nextImageDelay\<close> answers 0 and leaves the handler as it is. The entry is 0 when
  the count finds the file not marked as animation; when a file marked as animation
  turns out to have a single frame and \<open>have_animation\<close> is downgraded, the entry is
  the delay computed for that frame.
\<close>

theorem static_picture_frame_delays:
  fixes h g :: "'img QJpegXLHandler"
  shows "(reachable b d h
          \<and> (m_parseState h = ParseJpegXLSuccess \<or> m_parseState h = ParseJpegXLFinished)
          \<and> \<not> have_animation (m_basicinfo h) \<longrightarrow>
            length (m_framedelays h) = 1 \<and> nextImageDelay b l h = (0, h))
    \<and> (\<not> have_animation (m_basicinfo g) \<longrightarrow>
          count_frames evs g = (True, g\<lparr>m_framedelays := [0]\<rparr>))
    \<and> (have_animation (m_basicinfo g) \<and> m_framedelays g = [] \<and> fst (count_frames evs g)
          \<and> \<not> have_animation (m_basicinfo (snd (count_frames evs g))) \<longrightarrow>
          evs \<noteq> []
          \<and> (\<exists>delay. frame_delay (animation (m_basicinfo g)) (fe_header (hd evs)) = Some delay
                \<and> m_framedelays (snd (count_frames evs g)) = [delay]))"
proof (intro conjI impI)
  assume r: "reachable b d h
          \<and> (m_parseState h = ParseJpegXLSuccess \<or> m_parseState h = ParseJpegXLFinished)
          \<and> \<not> have_animation (m_basicinfo h)"
  then have "reachable b d h"
    by simp
  then have "frames_invariant h"
    by (rule reachable_invariant)
  with r show one: "length (m_framedelays h) = 1"
    by (auto simp: frames_invariant_def)
  from r have "ensureALLCounted b l h = (True, h)"
    by (simp add: ensureALLCounted_counted)
  with one show "nextImageDelay b l h = (0, h)"
    by (simp add: nextImageDelay_def)
next
  assume "\<not> have_animation (m_basicinfo g)"
  then show "count_frames evs g = (True, g\<lparr>m_framedelays := [0]\<rparr>)"
    by (simp add: count_frames_def)
next
  assume a: "have_animation (m_basicinfo g) \<and> m_framedelays g = [] \<and> fst (count_frames evs g)
          \<and> \<not> have_animation (m_basicinfo (snd (count_frames evs g)))"
  then have "evs \<noteq> []
    \<and> (\<exists>delay. frame_delay (animation (m_basicinfo g)) (fe_header (hd evs)) = Some delay
          \<and> m_framedelays (snd (count_frames evs g)) = [delay])"
    by (intro count_frames_downgrade) simp_all
  then show "evs \<noteq> []"
    and "\<exists>delay. frame_delay (animation (m_basicinfo g)) (fe_header (hd evs)) = Some delay
          \<and> m_framedelays (snd (count_frames evs g)) = [delay]"
    by simp_all
qed

lemma count_frames_downgraded:
  "count_frames [frame_of 100 True] (parsed single_frame_animation) =
    (True, (parsed single_frame_animation)
       \<lparr>m_framedelays := [100],
        m_basicinfo := single_frame_animation\<lparr>have_animation := False\<rparr>\<rparr>)"
  by (simp add: count_frames_def parsed_def fresh_def new_handler_def
      single_frame_animation_def info_of_def frame_of_def frame_delay_100)

theorem static_picture_frame_delays_witness:
  "reachable build64 codestream_device downgraded
   \<and> m_parseState downgraded = ParseJpegXLSuccess
   \<and> \<not> have_animation (m_basicinfo downgraded)
   \<and> length (m_framedelays downgraded) = 1
   \<and> nextImageDelay build64 (lib_of single_frame_animation [] 0) downgraded = (0, downgraded)
   \<and> \<not> have_animation (m_basicinfo (parsed static_4x2))
   \<and> count_frames [] (parsed static_4x2) = (True, (parsed static_4x2)\<lparr>m_framedelays := [0]\<rparr>)
   \<and> have_animation (m_basicinfo (parsed single_frame_animation))
   \<and> m_framedelays (parsed single_frame_animation) = []
   \<and> fst (count_frames [frame_of 100 True] (parsed single_frame_animation))
   \<and> \<not> have_animation
         (m_basicinfo (snd (count_frames [frame_of 100 True] (parsed single_frame_animation))))
   \<and> m_framedelays (snd (count_frames [frame_of 100 True] (parsed single_frame_animation)))
       = [100]"
proof -
  note s = static_picture_frame_delays
    [where b = build64 and d = codestream_device and h = downgraded
       and l = "lib_of single_frame_animation [] 0"
       and g = "parsed static_4x2" and evs = "[]"]
  note a = static_picture_frame_delays
    [where b = build64 and d = codestream_device and h = downgraded
       and l = "lib_of single_frame_animation [] 0"
       and g = "parsed single_frame_animation" and evs = "[frame_of 100 True]"]
  have r: "reachable build64 codestream_device downgraded"
    by (rule downgraded_reachable)
  have st: "m_parseState downgraded = ParseJpegXLSuccess"
    and na: "\<not> have_animation (m_basicinfo downgraded)"
    by (rule downgraded_state)+
  from s r st na have 1: "length (m_framedelays downgraded) = 1"
    "nextImageDelay build64 (lib_of single_frame_animation [] 0) downgraded = (0, downgraded)"
    by simp_all
  have n: "\<not> have_animation (m_basicinfo (parsed static_4x2))"
    by (simp add: parsed_def static_4x2_def info_of_def)
  from s n have 2: "count_frames [] (parsed static_4x2)
      = (True, (parsed static_4x2)\<lparr>m_framedelays := [0]\<rparr>)"
    by simp
  have p: "have_animation (m_basicinfo (parsed single_frame_animation))"
    "m_framedelays (parsed single_frame_animation) = []"
    "animation (m_basicinfo (parsed single_frame_animation))
      = \<lparr>tps_numerator = 1000, tps_denominator = Suc 0, num_loops = 0\<rparr>"
    by (simp_all add: parsed_def single_frame_animation_def info_of_def fresh_def
        new_handler_def)
  have c: "fst (count_frames [frame_of 100 True] (parsed single_frame_animation))"
    "\<not> have_animation
         (m_basicinfo (snd (count_frames [frame_of 100 True] (parsed single_frame_animation))))"
    by (simp_all add: count_frames_downgraded)
  have f: "fe_header (hd [frame_of 100 True]) = \<lparr>duration = 100, is_last = True\<rparr>"
    by (simp add: frame_of_def)
  from a p(1,2) c have "\<exists>delay.
      frame_delay (animation (m_basicinfo (parsed single_frame_animation)))
        (fe_header (hd [frame_of 100 True])) = Some delay
      \<and> m_framedelays (snd (count_frames [frame_of 100 True] (parsed single_frame_animation)))
          = [delay]"
    by blast
  then have 3: "m_framedelays
      (snd (count_frames [frame_of 100 True] (parsed single_frame_animation))) = [100]"
    unfolding p(3) f frame_delay_100 by auto
  show ?thesis
    using r st na 1 n 2 p(1,2) c 3 by simp
qed

end
